theory Spec2Isabelle
  imports Main
begin

section \<open>Common data\<close>

text \<open>
  A square is a pair (row, column) of Python integers. Exceptions raised by the Python
  code are values: a function that may raise returns \<open>py_exn + 'a\<close>, with
  \<open>Inl\<close> the exception.
\<close>

type_synonym pos = "int \<times> int"

datatype py_exn = ValueError | IndexError | AttributeError | TypeError | RecursionError

definition all_squares :: "pos list" where
  "all_squares = concat (map (\<lambda>r. map (\<lambda>c. (r, c)) [0..7]) [0..7])"

section \<open>game/piece.py, game/board.py\<close>

text \<open>
  \<open>Piece\<close> has a colour string and a king flag. \<open>Board.board\<close> is an 8 by 8
  list of lists of optional pieces, read and written only through \<open>get\<close> and
  \<open>set\<close>, which check \<open>0 <= r < 8 and 0 <= c < 8\<close>; the grid is a function
  from squares whose values outside the 8 by 8 range are never read or written.
\<close>

record piece =
  color :: string
  king :: bool

definition make_king :: "piece \<Rightarrow> piece" where
  "make_king p = p\<lparr>king := True\<rparr>"

type_synonym G_board = "pos \<Rightarrow> piece option"

definition G_get :: "G_board \<Rightarrow> int \<Rightarrow> int \<Rightarrow> piece option" where
  "G_get b r c = (if 0 \<le> r \<and> r < 8 \<and> 0 \<le> c \<and> c < 8 then b (r, c) else None)"

definition G_set :: "G_board \<Rightarrow> int \<Rightarrow> int \<Rightarrow> piece option \<Rightarrow> G_board" where
  "G_set b r c p = (if 0 \<le> r \<and> r < 8 \<and> 0 \<le> c \<and> c < 8 then b((r, c) := p) else b)"

definition G_remove :: "G_board \<Rightarrow> int \<Rightarrow> int \<Rightarrow> G_board" where
  "G_remove b r c = G_set b r c None"

text \<open>\<open>_create_board\<close>: RED on the dark squares of rows 0..2, BLACK on those of rows 5..7.\<close>

definition create_board :: G_board where
  "create_board = (\<lambda>(r, c).
     if 0 \<le> r \<and> r < 3 \<and> 0 \<le> c \<and> c < 8 \<and> (r + c) mod 2 = 1
       then Some \<lparr>color = ''RED'', king = False\<rparr>
     else if 5 \<le> r \<and> r < 8 \<and> 0 \<le> c \<and> c < 8 \<and> (r + c) mod 2 = 1
       then Some \<lparr>color = ''BLACK'', king = False\<rparr>
     else None)"

section \<open>game/game_logic.py\<close>

record game =
  board :: G_board
  turn :: string
  winner :: "string option"

definition new_game :: game where
  "new_game = \<lparr>board = create_board, turn = ''RED'', winner = None\<rparr>"

definition G_in_bounds :: "int \<Rightarrow> int \<Rightarrow> bool" where
  "G_in_bounds r c \<longleftrightarrow> 0 \<le> r \<and> r < 8 \<and> 0 \<le> c \<and> c < 8"

text \<open>The direction list of a piece (\<open>dirs\<close> and \<open>jdirs\<close> are computed the same way).\<close>

definition dirs_of :: "piece \<Rightarrow> (int \<times> int) list" where
  "dirs_of p =
     (if king p then [(-1, -1), (-1, 1), (1, -1), (1, 1)]
      else (let step = (if color p = ''RED'' then 1 else -1) in [(step, -1), (step, 1)]))"

text \<open>
  Python dictionaries keep insertion order; they are association lists with distinct
  keys. \<open>dict_assign\<close> is \<open>d[k] = v\<close>, \<open>setdefault_append\<close> is
  \<open>d.setdefault(k, []).append(v)\<close>.
\<close>

fun dict_assign :: "('k \<times> 'v) list \<Rightarrow> 'k \<Rightarrow> 'v \<Rightarrow> ('k \<times> 'v) list" where
  "dict_assign [] k v = [(k, v)]"
| "dict_assign ((k', v') # d) k v =
     (if k' = k then (k', v) # d else (k', v') # dict_assign d k v)"

fun setdefault_append :: "('k \<times> 'v list) list \<Rightarrow> 'k \<Rightarrow> 'v \<Rightarrow> ('k \<times> 'v list) list" where
  "setdefault_append [] k v = [(k, [v])]"
| "setdefault_append ((k', vs) # d) k v =
     (if k' = k then (k', vs @ [v]) # d else (k', vs) # setdefault_append d k v)"

type_synonym jumps = "(pos \<times> pos list list) list"
type_synonym moves = "(pos \<times> pos list) list"

text \<open>The loop "Simple moves" of \<open>get_valid_moves\<close>.\<close>

fun simple_loop :: "G_board \<Rightarrow> int \<Rightarrow> int \<Rightarrow> (int \<times> int) list \<Rightarrow> moves \<Rightarrow> moves" where
  "simple_loop b r c [] simple = simple"
| "simple_loop b r c ((dr, dc) # ds) simple =
     (if G_in_bounds (r + dr) (c + dc) \<and> G_get b (r + dr) (c + dc) = None
      then simple_loop b r c ds (dict_assign simple (r + dr, c + dc) [])
      else simple_loop b r c ds simple)"

text \<open>
  The number of pieces on the 64 squares; it decreases along the recursion of the
  capture search.
\<close>

definition G_count :: "G_board \<Rightarrow> nat" where
  "G_count b = length (filter (\<lambda>q. b q \<noteq> None) all_squares)"

text \<open>
  The board after one jump of the search: on a clone of \<open>board_state\<close>,
  \<open>set(lr, lc, get(sr, sc))\<close>, \<open>remove(sr, sc)\<close>, \<open>remove(mr, mc)\<close>.
\<close>

definition G_jump :: "G_board \<Rightarrow> int \<Rightarrow> int \<Rightarrow> int \<Rightarrow> int \<Rightarrow> int \<Rightarrow> int \<Rightarrow> G_board" where
  "G_jump bs sr sc mr mc lr lc =
     G_remove (G_remove (G_set bs lr lc (G_get bs sr sc)) sr sc) mr mc"

subsection \<open>The piece count decreases with every jump\<close>

lemma set_all_squares: "(r, c) \<in> set all_squares \<longleftrightarrow> 0 \<le> r \<and> r < 8 \<and> 0 \<le> c \<and> c < 8"
  by (auto simp: all_squares_def image_iff)

lemma distinct_all_squares: "distinct all_squares"
  unfolding all_squares_def
  by (rule distinct_concat) (auto simp: distinct_map inj_on_def)

lemma G_count_card: "G_count b = card {q \<in> set all_squares. b q \<noteq> None}"
  unfolding G_count_def using distinct_all_squares
  by (simp add: distinct_length_filter Int_def conj_commute)

lemma G_count_jump_less:
  assumes m: "b m \<noteq> None" and l: "b l = None"
    and ms: "m \<in> set all_squares" and ls: "l \<in> set all_squares"
    and sm: "s \<noteq> m" and sl: "s \<noteq> l" and ss: "s \<in> set all_squares \<or> b s = None"
  shows "G_count (b(l := b s, s := None, m := None)) < G_count b"
proof -
  define S where "S = {q \<in> set all_squares. b q \<noteq> None}"
  define S' where "S' = {q \<in> set all_squares. (b(l := b s, s := None, m := None)) q \<noteq> None}"
  have fin: "finite S" by (simp add: S_def)
  have mS: "m \<in> S" using m ms by (simp add: S_def)
  have cnt: "G_count b = card S" "G_count (b(l := b s, s := None, m := None)) = card S'"
    by (simp_all only: G_count_card S_def S'_def)
  have "card S' < card S"
  proof (cases "s \<in> S")
    case True
    have "S' \<subseteq> insert l (S - {s, m})" using ls by (auto simp: S_def S'_def split: if_splits)
    then have "card S' \<le> card (insert l (S - {s, m}))"
      using fin by (intro card_mono) auto
    also have "\<dots> \<le> Suc (card (S - {s, m}))"
      using fin by (simp add: card_insert_if)
    finally have 1: "card S' \<le> Suc (card (S - {s, m}))" .
    have "{s, m} \<subseteq> S" using True mS by auto
    then have 2: "card (S - {s, m}) = card S - card {s, m}"
      using fin by (intro card_Diff_subset) auto
    have "card {s, m} \<le> card S" using \<open>{s, m} \<subseteq> S\<close> fin by (intro card_mono) auto
    moreover have "card {s, m} = 2" using sm by simp
    ultimately show ?thesis using 1 2 by linarith
  next
    case False
    have "S' \<subseteq> S - {m}" using False ls l ss by (auto simp: S_def S'_def split: if_splits)
    then have "card S' \<le> card (S - {m})" using fin by (intro card_mono) auto
    also have "\<dots> < card S" using mS fin by (intro card_Diff1_less) auto
    finally show ?thesis .
  qed
  then show ?thesis by (simp only: cnt)
qed

lemma G_count_remove_less:
  assumes m: "b m \<noteq> None" and ms: "m \<in> set all_squares"
  shows "G_count (b(m := None)) < G_count b"
proof -
  define S where "S = {q \<in> set all_squares. b q \<noteq> None}"
  define S' where "S' = {q \<in> set all_squares. (b(m := None)) q \<noteq> None}"
  have cnt: "G_count b = card S" "G_count (b(m := None)) = card S'"
    by (simp_all only: G_count_card S_def S'_def)
  have "S' = S - {m}" by (auto simp: S_def S'_def)
  moreover have "m \<in> S" "finite S" using m ms by (simp_all add: S_def)
  ultimately have "card S' < card S" using card_Diff1_less[of S m] by simp
  then show ?thesis by (simp only: cnt)
qed

lemma G_jump_count:
  assumes "G_in_bounds (sr + dr) (sc + dc)" "G_in_bounds (sr + 2 * dr) (sc + 2 * dc)"
    and "G_get bs (sr + dr) (sc + dc) \<noteq> None" "G_get bs (sr + 2 * dr) (sc + 2 * dc) = None"
  shows "G_count (G_jump bs sr sc (sr + dr) (sc + dc) (sr + 2 * dr) (sc + 2 * dc)) < G_count bs"
proof -
  define m where "m = (sr + dr, sc + dc)"
  define l where "l = (sr + 2 * dr, sc + 2 * dc)"
  define s where "s = (sr, sc)"
  have m: "bs m \<noteq> None" and l: "bs l = None"
    using assms by (auto simp: G_get_def G_in_bounds_def m_def l_def)
  have ms: "m \<in> set all_squares" and ls: "l \<in> set all_squares"
    using assms by (auto simp: set_all_squares G_in_bounds_def m_def l_def)
  have ml: "m \<noteq> l" using m l by metis
  then have sm: "s \<noteq> m" and sl: "s \<noteq> l" by (auto simp: m_def l_def s_def)
  have less: "G_count (bs(l := bs s, s := None, m := None)) < G_count bs"
    if "s \<in> set all_squares" by (rule G_count_jump_less[OF m l ms ls sm sl]) (simp add: that)
  have inb: "0 \<le> sr + dr \<and> sr + dr < 8 \<and> 0 \<le> sc + dc \<and> sc + dc < 8"
    "0 \<le> sr + 2 * dr \<and> sr + 2 * dr < 8 \<and> 0 \<le> sc + 2 * dc \<and> sc + 2 * dc < 8"
    using assms by (auto simp: G_in_bounds_def)
  show ?thesis
  proof (cases "0 \<le> sr \<and> sr < 8 \<and> 0 \<le> sc \<and> sc < 8")
    case True
    have "G_jump bs sr sc (sr + dr) (sc + dc) (sr + 2 * dr) (sc + 2 * dc)
        = bs(l := bs s, s := None, m := None)"
      by (simp only: G_jump_def G_remove_def G_set_def G_get_def inb True if_True simp_thms m_def l_def s_def)
    moreover have "s \<in> set all_squares" using True by (simp add: s_def set_all_squares)
    ultimately show ?thesis using less by simp
  next
    case False
    have "G_jump bs sr sc (sr + dr) (sc + dc) (sr + 2 * dr) (sc + 2 * dc)
        = bs(l := None, m := None)"
      by (simp only: G_jump_def G_remove_def G_set_def G_get_def inb False if_True if_False simp_thms m_def l_def s_def)
    also have "\<dots> = bs(m := None)" using l by (metis fun_upd_triv)
    finally have eq: "G_jump bs sr sc (sr + dr) (sc + dc) (sr + 2 * dr) (sc + 2 * dc) = bs(m := None)" .
    have "G_count (bs(m := None)) < G_count bs"
      using G_count_remove_less[of bs m] m ms by simp
    then show ?thesis using eq by simp
  qed
qed

subsection \<open>\<open>get_valid_moves\<close>: the capture search\<close>

text \<open>
  The nested function \<open>dfs(sr, sc, board_state, captured)\<close> appends to the dictionary
  \<open>jumps\<close> of the enclosing call and returns \<open>found\<close>; here \<open>jumps\<close> is passed
  in and returned. \<open>G_dfs_loop\<close> is the loop \<open>for dr, dc in jdirs\<close> on the
  directions still to try. Reading \<open>piece.king\<close> of an empty square raises
  AttributeError. Boards are values, so \<open>clone\<close> is the identity.
\<close>

function G_dfs :: "int \<Rightarrow> int \<Rightarrow> G_board \<Rightarrow> pos list \<Rightarrow> jumps \<Rightarrow> py_exn + (bool \<times> jumps)"
  and G_dfs_loop :: "int \<Rightarrow> int \<Rightarrow> G_board \<Rightarrow> pos list \<Rightarrow> piece \<Rightarrow> (int \<times> int) list \<Rightarrow> bool \<Rightarrow> jumps
      \<Rightarrow> py_exn + (bool \<times> jumps)"
where
  "G_dfs sr sc board_state captured jumps =
     (case G_get board_state sr sc of
        None \<Rightarrow> Inl AttributeError
      | Some piece \<Rightarrow> G_dfs_loop sr sc board_state captured piece (dirs_of piece) False jumps)"
| "G_dfs_loop sr sc board_state captured piece [] found jumps = Inr (found, jumps)"
| "G_dfs_loop sr sc board_state captured piece ((dr, dc) # ds) found jumps =
     (if \<not> (G_in_bounds (sr + dr) (sc + dc) \<and> G_in_bounds (sr + 2 * dr) (sc + 2 * dc))
      then G_dfs_loop sr sc board_state captured piece ds found jumps
      else if G_get board_state (sr + dr) (sc + dc) \<noteq> None
             \<and> color (the (G_get board_state (sr + dr) (sc + dc))) \<noteq> color piece
             \<and> G_get board_state (sr + 2 * dr) (sc + 2 * dc) = None
      then (case G_dfs (sr + 2 * dr) (sc + 2 * dc)
                   (G_jump board_state sr sc (sr + dr) (sc + dc) (sr + 2 * dr) (sc + 2 * dc))
                   (captured @ [(sr + dr, sc + dc)]) jumps of
              Inl e \<Rightarrow> Inl e
            | Inr (has_more, jumps') \<Rightarrow>
                G_dfs_loop sr sc board_state captured piece ds True
                  (if \<not> has_more
                   then setdefault_append jumps' (sr + 2 * dr, sc + 2 * dc) (captured @ [(sr + dr, sc + dc)])
                   else jumps'))
      else G_dfs_loop sr sc board_state captured piece ds found jumps)"
  by pat_completeness auto
termination
proof (relation "measures [\<lambda>x. case x of Inl (sr, sc, b, _) \<Rightarrow> G_count b | Inr (sr, sc, b, _) \<Rightarrow> G_count b,
                           \<lambda>x. case x of Inl _ \<Rightarrow> 5 | Inr (sr, sc, b, cap, p, ds, _) \<Rightarrow> length ds]", goal_cases)
  case 1 show ?case by simp
next
  case (2 sr sc b cap js p)
  then show ?case by (simp add: dirs_of_def Let_def)
next
  case 3 then show ?case by simp
next
  case 4 then show ?case by (simp add: G_jump_count)
next
  case 5 then show ?case by simp
next
  case 6 then show ?case by simp
qed

text \<open>\<open>best = max(seqs, key=len)\<close>: the first longest element; ValueError on an empty list.\<close>

definition max_by_len :: "'a list list \<Rightarrow> py_exn + 'a list" where
  "max_by_len seqs =
     (case seqs of
        [] \<Rightarrow> Inl ValueError
      | s # ss \<Rightarrow> Inr (fold (\<lambda>x best. if length best < length x then x else best) ss s))"

text \<open>The loop \<open>for dest, seqs in jumps.items(): result[dest] = max(seqs, key=len)\<close>.\<close>

fun best_per_dest :: "jumps \<Rightarrow> moves \<Rightarrow> py_exn + moves" where
  "best_per_dest [] result = Inr result"
| "best_per_dest ((dest, seqs) # js) result =
     (case max_by_len seqs of
        Inl e \<Rightarrow> Inl e
      | Inr best \<Rightarrow> best_per_dest js (dict_assign result dest best))"

definition G_clone :: "G_board \<Rightarrow> G_board" where
  "G_clone b = b"

text \<open>The dictionary \<open>jumps\<close> as the search leaves it.\<close>

definition capture_jumps :: "G_board \<Rightarrow> int \<Rightarrow> int \<Rightarrow> py_exn + jumps" where
  "capture_jumps b r c =
     (case G_dfs r c (G_clone b) [] [] of Inl e \<Rightarrow> Inl e | Inr (found, jumps) \<Rightarrow> Inr jumps)"

definition get_valid_moves :: "G_board \<Rightarrow> int \<Rightarrow> int \<Rightarrow> py_exn + moves" where
  "get_valid_moves b r c =
     (case G_get b r c of
        None \<Rightarrow> Inr []
      | Some p \<Rightarrow>
          (let simple = simple_loop b r c (dirs_of p) [] in
           case capture_jumps b r c of
             Inl e \<Rightarrow> Inl e
           | Inr jumps \<Rightarrow> if jumps \<noteq> [] then best_per_dest jumps [] else Inr simple))"

text \<open>\<open>get_all_moves\<close>: the squares in row-major order, as the two nested loops visit them.\<close>

fun get_all_moves_loop :: "G_board \<Rightarrow> string \<Rightarrow> pos list \<Rightarrow> (pos \<times> moves) list
    \<Rightarrow> py_exn + (pos \<times> moves) list" where
  "get_all_moves_loop b col [] moves = Inr moves"
| "get_all_moves_loop b col ((r, c) # sqs) moves =
     (case G_get b r c of
        None \<Rightarrow> get_all_moves_loop b col sqs moves
      | Some p \<Rightarrow>
          if color p = col
          then (case get_valid_moves b r c of
                  Inl e \<Rightarrow> Inl e
                | Inr legal \<Rightarrow>
                    if legal \<noteq> [] then get_all_moves_loop b col sqs (dict_assign moves (r, c) legal)
                    else get_all_moves_loop b col sqs moves)
          else get_all_moves_loop b col sqs moves)"

definition get_all_moves :: "game \<Rightarrow> string \<Rightarrow> py_exn + (pos \<times> moves) list" where
  "get_all_moves g col = get_all_moves_loop (board g) col all_squares []"

subsection \<open>\<open>move_piece\<close>\<close>

text \<open>
  The result \<open>(False, message)\<close> is \<open>Rejected message\<close>; \<open>(True, {"continue": True,
  "pos": (er, ec)})\<close> is \<open>Applied (Some (er, ec))\<close> and \<open>(True, {"continue": False})\<close>
  is \<open>Applied None\<close>. The function returns the result and the game as it leaves it.

  \<open>p\<close> is the object stored at the origin; \<open>set(er, ec, p)\<close> stores the same object at
  the destination, so \<open>p.make_king()\<close> changes the board wherever \<open>p\<close> is still stored.
  After \<open>set\<close> only removals follow, so \<open>p\<close> is stored at most at the destination, and
  it is there exactly when that square is not empty.
\<close>

datatype move_result = Rejected string | Applied "pos option"

definition remove_captured :: "G_board \<Rightarrow> pos list \<Rightarrow> G_board" where
  "remove_captured b captured = fold (\<lambda>(cr, cc) b'. G_remove b' cr cc) captured b"

definition kinged :: "piece \<Rightarrow> int \<Rightarrow> piece" where
  "kinged p er =
     (if \<not> king p
      then (let p1 = (if color p = ''RED'' \<and> er = 7 then make_king p else p)
            in if color p1 = ''BLACK'' \<and> er = 0 then make_king p1 else p1)
      else p)"

definition any_values :: "moves \<Rightarrow> bool" where
  "any_values ms \<longleftrightarrow> (\<exists>(dest, captured) \<in> set ms. captured \<noteq> [])"

text \<open>
  The board after \<open>set(er, ec, p)\<close>, \<open>remove(sr, sc)\<close>, the removal of the captured
  squares and the kinging of \<open>p\<close>.
\<close>

definition moved_board :: "G_board \<Rightarrow> piece \<Rightarrow> int \<Rightarrow> int \<Rightarrow> int \<Rightarrow> int \<Rightarrow> pos list \<Rightarrow> G_board" where
  "moved_board b p sr sc er ec captured =
     (let b1 = G_set b er ec (Some p);
          b2 = G_remove b1 sr sc;
          b3 = remove_captured b2 captured
      in case G_get b3 er ec of
           None \<Rightarrow> b3
         | Some q \<Rightarrow> G_set b3 er ec (Some (kinged p er)))"

definition next_turn :: "string \<Rightarrow> string" where
  "next_turn t = (if t = ''RED'' then ''BLACK'' else ''RED'')"

definition move_piece :: "game \<Rightarrow> pos \<Rightarrow> pos \<Rightarrow> py_exn + (move_result \<times> game)" where
  "move_piece g start end =
     (case (start, end) of ((sr, sc), (er, ec)) \<Rightarrow>
      (case G_get (board g) sr sc of
         None \<Rightarrow> Inr (Rejected ''Invalid piece'', g)
       | Some p \<Rightarrow>
           if color p \<noteq> turn g then Inr (Rejected ''Invalid piece'', g)
           else
             (case get_valid_moves (board g) sr sc of
                Inl e \<Rightarrow> Inl e
              | Inr valid \<Rightarrow>
                  (case map_of valid end of
                     None \<Rightarrow> Inr (Rejected ''Invalid move'', g)
                   | Some captured \<Rightarrow>
                       (let g4 = g\<lparr>board := moved_board (board g) p sr sc er ec captured\<rparr>
                        in if captured \<noteq> []
                           then (case get_valid_moves (board g4) er ec of
                                   Inl e \<Rightarrow> Inl e
                                 | Inr more_moves \<Rightarrow>
                                     if any_values more_moves
                                     then Inr (Applied (Some (er, ec)), g4)
                                     else Inr (Applied None, g4\<lparr>turn := next_turn (turn g)\<rparr>))
                           else Inr (Applied None, g4\<lparr>turn := next_turn (turn g)\<rparr>))))))"

section \<open>Properties of game_logic.py\<close>

subsection \<open>The capture search raises nothing and records non-empty capture lists\<close>

lemma G_get_jump_land:
  "G_in_bounds lr lc \<Longrightarrow> (lr, lc) \<noteq> (sr, sc) \<Longrightarrow> (lr, lc) \<noteq> (mr, mc)
   \<Longrightarrow> G_get (G_jump bs sr sc mr mc lr lc) lr lc = G_get bs sr sc"
  by (auto simp: G_jump_def G_remove_def G_set_def G_get_def G_in_bounds_def)

lemma jump_squares_distinct:
  assumes "G_get bs (sr + dr) (sc + dc) \<noteq> None" "G_get bs (sr + 2 * dr) (sc + 2 * dc) = None"
  shows "(sr + 2 * dr, sc + 2 * dc) \<noteq> (sr, sc)" "(sr + 2 * dr, sc + 2 * dc) \<noteq> (sr + dr, sc + dc)"
  using assms by auto

lemma G_dfs_no_exn:
  "G_get bs sr sc \<noteq> None \<Longrightarrow> \<exists>res. G_dfs sr sc bs cap js = Inr res"
  "G_get bs sr sc \<noteq> None \<Longrightarrow> \<exists>res. G_dfs_loop sr sc bs cap piece ds found js = Inr res"
proof (induction sr sc bs cap js and sr sc bs cap piece ds found js rule: G_dfs_G_dfs_loop.induct)
  case (1 sr sc board_state captured jumps)
  then show ?case by (auto split: option.splits)
next
  case (2 sr sc board_state captured piece found jumps)
  show ?case by simp
next
  case (3 sr sc board_state captured piece dr dc ds found jumps)
  show ?case
  proof (cases "G_in_bounds (sr + dr) (sc + dc) \<and> G_in_bounds (sr + 2 * dr) (sc + 2 * dc)")
    case False
    then show ?thesis using 3 by auto
  next
    case inb: True
    show ?thesis
    proof (cases "G_get board_state (sr + dr) (sc + dc) \<noteq> None
             \<and> color (the (G_get board_state (sr + dr) (sc + dc))) \<noteq> color piece
             \<and> G_get board_state (sr + 2 * dr) (sc + 2 * dc) = None")
      case False
      then show ?thesis using 3 inb by auto
    next
      case jump: True
      have "G_get (G_jump board_state sr sc (sr + dr) (sc + dc) (sr + 2 * dr) (sc + 2 * dc))
              (sr + 2 * dr) (sc + 2 * dc) = G_get board_state sr sc"
        using inb jump jump_squares_distinct[of board_state sr dr sc dc]
        by (intro G_get_jump_land) auto
      then obtain res where res: "G_dfs (sr + 2 * dr) (sc + 2 * dc)
                   (G_jump board_state sr sc (sr + dr) (sc + dc) (sr + 2 * dr) (sc + 2 * dc))
                   (captured @ [(sr + dr, sc + dc)]) jumps = Inr res"
        using "3.IH"(2) inb jump "3.prems" by auto
      obtain has_more jumps' where r: "res = (has_more, jumps')" by (cases res)
      show ?thesis using "3.IH"(3)[OF _ _ res[unfolded r]] inb jump "3.prems" res r
        by auto
    qed
  qed
qed

lemma G_dfs_jumps_inv:
  assumes step: "\<And>js k cap x. P js \<Longrightarrow> P (setdefault_append js k (cap @ [x]))"
  shows "G_dfs sr sc bs cap js = Inr (f, js') \<Longrightarrow> P js \<Longrightarrow> P js'"
    and "G_dfs_loop sr sc bs cap piece ds found js = Inr (f, js') \<Longrightarrow> P js \<Longrightarrow> P js'"
proof (induction sr sc bs cap js and sr sc bs cap piece ds found js
    arbitrary: f js' and f js' rule: G_dfs_G_dfs_loop.induct)
  case (1 sr sc board_state captured jumps)
  then show ?case by (auto split: option.splits)
next
  case (2 sr sc board_state captured piece found jumps)
  then show ?case by simp
next
  case (3 sr sc board_state captured piece dr dc ds found jumps)
  show ?case
  proof (cases "G_in_bounds (sr + dr) (sc + dc) \<and> G_in_bounds (sr + 2 * dr) (sc + 2 * dc)")
    case False
    then show ?thesis using 3 by auto
  next
    case inb: True
    show ?thesis
    proof (cases "G_get board_state (sr + dr) (sc + dc) \<noteq> None
             \<and> color (the (G_get board_state (sr + dr) (sc + dc))) \<noteq> color piece
             \<and> G_get board_state (sr + 2 * dr) (sc + 2 * dc) = None")
      case False
      then show ?thesis using 3 inb by auto
    next
      case jump: True
      from "3.prems"(1) inb jump obtain has_more jumps1 where
        rec: "G_dfs (sr + 2 * dr) (sc + 2 * dc)
                   (G_jump board_state sr sc (sr + dr) (sc + dc) (sr + 2 * dr) (sc + 2 * dc))
                   (captured @ [(sr + dr, sc + dc)]) jumps = Inr (has_more, jumps1)"
        and rest: "G_dfs_loop sr sc board_state captured piece ds True
                  (if \<not> has_more
                   then setdefault_append jumps1 (sr + 2 * dr, sc + 2 * dc) (captured @ [(sr + dr, sc + dc)])
                   else jumps1) = Inr (f, js')"
        by (auto split: sum.splits)
      have P1: "P jumps1" using "3.IH"(2)[OF _ _ rec] inb jump "3.prems"(2) by auto
      have "P (if \<not> has_more
                   then setdefault_append jumps1 (sr + 2 * dr, sc + 2 * dc) (captured @ [(sr + dr, sc + dc)])
                   else jumps1)"
        using P1 step by auto
      then show ?thesis using "3.IH"(3)[OF _ _ rec refl rest] inb jump by auto
    qed
  qed
qed

definition jumps_ok :: "jumps \<Rightarrow> bool" where
  "jumps_ok js \<longleftrightarrow> (\<forall>(d, seqs) \<in> set js. seqs \<noteq> [] \<and> (\<forall>s \<in> set seqs. s \<noteq> []))"

lemma jumps_ok_setdefault_append:
  "jumps_ok js \<Longrightarrow> v \<noteq> [] \<Longrightarrow> jumps_ok (setdefault_append js k v)"
  by (induction js k v rule: setdefault_append.induct) (auto simp: jumps_ok_def)

lemma G_dfs_jumps_ok:
  "G_dfs sr sc bs cap js = Inr (f, js') \<Longrightarrow> jumps_ok js \<Longrightarrow> jumps_ok js'"
  by (rule G_dfs_jumps_inv(1)[where P = jumps_ok]) (auto intro: jumps_ok_setdefault_append)

lemma capture_jumps_ok:
  assumes "capture_jumps b r c = Inr js"
  shows "jumps_ok js"
proof -
  from assms obtain found where "G_dfs r c (G_clone b) [] [] = Inr (found, js)"
    by (auto simp: capture_jumps_def split: sum.splits)
  moreover have "jumps_ok []" by (simp add: jumps_ok_def)
  ultimately show ?thesis by (rule G_dfs_jumps_ok)
qed

lemma max_by_len_in:
  "max_by_len seqs = Inr best \<Longrightarrow> best \<in> set seqs \<and> (\<forall>s \<in> set seqs. length s \<le> length best)"
proof -
  have f: "fold (\<lambda>x best. if length best < length x then x else best) ss s \<in> set (s # ss)
      \<and> (\<forall>x \<in> set (s # ss). length x \<le> length (fold (\<lambda>x best. if length best < length x then x else best) ss s))"
    for ss and s :: "'a list"
  proof (induction ss arbitrary: s)
    case Nil
    show ?case by simp
  next
    case (Cons a ss)
    show ?case using Cons.IH[of a] Cons.IH[of s] by (auto simp: not_less dest: order_trans less_imp_le)
  qed
  assume "max_by_len seqs = Inr best"
  then show ?thesis using f by (cases seqs) (auto simp: max_by_len_def)
qed

lemma set_dict_assign: "set (dict_assign d k v) \<subseteq> insert (k, v) (set d)"
  by (induction d k v rule: dict_assign.induct) auto

lemma dict_assign_in: "(k, v) \<in> set (dict_assign d k v)"
  by (induction d k v rule: dict_assign.induct) auto

lemma best_per_dest_in:
  "best_per_dest js res = Inr out \<Longrightarrow> (d, caps) \<in> set out
   \<Longrightarrow> (d, caps) \<in> set res \<or> (\<exists>seqs. (d, seqs) \<in> set js \<and> max_by_len seqs = Inr caps)"
proof (induction js res arbitrary: out rule: best_per_dest.induct)
  case (1 result)
  then show ?case by simp
next
  case (2 dest seqs js result)
  from "2.prems"(1) obtain best where b: "max_by_len seqs = Inr best"
    and r: "best_per_dest js (dict_assign result dest best) = Inr out"
    by (auto split: sum.splits)
  from "2.IH"[OF b r "2.prems"(2)] show ?case
    using set_dict_assign[of result dest best] b by auto
qed

lemma best_per_dest_no_exn:
  "jumps_ok js \<Longrightarrow> \<exists>out. best_per_dest js res = Inr out"
proof (induction js res rule: best_per_dest.induct)
  case (1 result)
  show ?case by simp
next
  case (2 dest seqs js result)
  from "2.prems" obtain s ss where "seqs = s # ss" by (cases seqs) (auto simp: jumps_ok_def)
  then obtain best where b: "max_by_len seqs = Inr best" by (auto simp: max_by_len_def)
  have "jumps_ok js" using "2.prems" by (auto simp: jumps_ok_def)
  from "2.IH"[OF b this] show ?case using b by auto
qed

lemma get_valid_moves_no_exn: "\<exists>ms. get_valid_moves b r c = Inr ms"
proof (cases "G_get b r c")
  case None
  then show ?thesis by (simp add: get_valid_moves_def)
next
  case (Some p)
  then obtain res where "G_dfs r c b [] [] = Inr res"
    using G_dfs_no_exn(1)[of b r c "[]" "[]"] by auto
  then obtain js where js: "capture_jumps b r c = Inr js"
    by (cases res) (auto simp: capture_jumps_def G_clone_def)
  from capture_jumps_ok[OF js] best_per_dest_no_exn[of js "[]"] show ?thesis
    using Some js by (auto simp: get_valid_moves_def)
qed

subsection \<open>Rejected moves\<close>

text \<open>
  C10. When \<open>move_piece\<close> rejects a move, because the origin square is empty, or the
  piece there is not of the colour to move, or the destination is not a key of
  \<open>get_valid_moves\<close> for the origin, it returns \<open>(False, message)\<close> and the board,
  the turn and the winner field are what they were.
\<close>

theorem move_piece_reject_atomic:
  assumes "G_get (board g) sr sc = None
           \<or> (\<exists>p. G_get (board g) sr sc = Some p \<and> color p \<noteq> turn g)
           \<or> (\<exists>valid. get_valid_moves (board g) sr sc = Inr valid \<and> map_of valid dest = None)"
  shows "\<exists>msg g'. move_piece g (sr, sc) dest = Inr (Rejected msg, g')
           \<and> board g' = board g \<and> turn g' = turn g \<and> winner g' = winner g"
  using assms
  by (cases dest) (auto simp: move_piece_def get_valid_moves_def split: option.splits)

theorem move_piece_reject_atomic_witness:
  "get_valid_moves (board new_game) 2 1 = Inr [((3, 0), []), ((3, 2), [])]
   \<and> (\<exists>msg g'. move_piece new_game (2, 1) (4, 3) = Inr (Rejected msg, g')
         \<and> board g' = board new_game \<and> turn g' = turn new_game \<and> winner g' = winner new_game)"
proof -
  have v: "get_valid_moves (board new_game) 2 1 = Inr [((3, 0), []), ((3, 2), [])]"
    by code_simp
  from move_piece_reject_atomic[of new_game 2 1 "(4, 3)"] v show ?thesis by simp
qed

section \<open>src/checkersEngine.py\<close>

text \<open>
  The functions that follow \<open>class Board\<close> in the file (\<open>legal_moves\<close>, \<open>apply_move\<close>,
  \<open>is_game_over\<close>, \<open>winner\<close>, \<open>_find_simple_moves_from\<close>, \<open>_find_captures_from\<close>) are
  defined at module level with a first parameter \<open>self\<close>: they are functions of the grid.
  \<open>Board.get\<close> and \<open>Board.set\<close> index the 8 by 8 list of lists directly: an index from
  -8 to -1 counts from the end, any other index outside 0..7 raises IndexError
  (\<open>py_index\<close>).
\<close>

datatype Player = Player_RED | Player_BLACK

datatype Piece = EMPTY | RED | RED_KING | BLACK | BLACK_KING

definition is_dark_square :: "int \<Rightarrow> int \<Rightarrow> bool" where
  "is_dark_square r c \<longleftrightarrow> (r + c) mod 2 = 1"

definition piece_owner :: "Piece \<Rightarrow> Player option" where
  "piece_owner piece =
     (if piece = RED \<or> piece = RED_KING then Some Player_RED
      else if piece = BLACK \<or> piece = BLACK_KING then Some Player_BLACK
      else None)"

definition is_king :: "Piece \<Rightarrow> bool" where
  "is_king piece \<longleftrightarrow> piece = RED_KING \<or> piece = BLACK_KING"

definition promote :: "Piece \<Rightarrow> int \<Rightarrow> Piece" where
  "promote piece row =
     (if piece = RED \<and> row = 0 then RED_KING
      else if piece = BLACK \<and> row = 8 - 1 then BLACK_KING
      else piece)"

type_synonym E_board = "pos \<Rightarrow> Piece"

definition setup_initial :: E_board where
  "setup_initial = (\<lambda>(r, c).
     if \<not> is_dark_square r c then EMPTY
     else if r \<le> 2 then BLACK
     else if r \<ge> 5 then RED
     else EMPTY)"

definition py_index :: "int \<Rightarrow> int option" where
  "py_index i =
     (if 0 \<le> i \<and> i < 8 then Some i
      else if - 8 \<le> i \<and> i < 0 then Some (i + 8)
      else None)"

definition E_in_bounds :: "int \<Rightarrow> int \<Rightarrow> bool" where
  "E_in_bounds r c \<longleftrightarrow> 0 \<le> r \<and> r < 8 \<and> 0 \<le> c \<and> c < 8"

definition E_get :: "E_board \<Rightarrow> int \<Rightarrow> int \<Rightarrow> py_exn + Piece" where
  "E_get b r c =
     (case py_index r of
        None \<Rightarrow> Inl IndexError
      | Some i \<Rightarrow> (case py_index c of None \<Rightarrow> Inl IndexError | Some j \<Rightarrow> Inr (b (i, j))))"

definition E_set :: "E_board \<Rightarrow> int \<Rightarrow> int \<Rightarrow> Piece \<Rightarrow> py_exn + E_board" where
  "E_set b r c val =
     (case py_index r of
        None \<Rightarrow> Inl IndexError
      | Some i \<Rightarrow> (case py_index c of None \<Rightarrow> Inl IndexError | Some j \<Rightarrow> Inr (b((i, j) := val))))"

definition E_clone :: "E_board \<Rightarrow> E_board" where
  "E_clone b = b"

definition directions :: "(int \<times> int) list" where
  "directions = [(-1, -1), (-1, 1), (1, -1), (1, 1)]"

type_synonym paths = "pos list list"

definition E_count :: "E_board \<Rightarrow> nat" where
  "E_count b = length (filter (\<lambda>q. b q \<noteq> EMPTY) all_squares)"

lemma E_count_card: "E_count b = card {q \<in> set all_squares. b q \<noteq> EMPTY}"
  unfolding E_count_def using distinct_all_squares
  by (simp add: distinct_length_filter Int_def conj_commute)

lemma E_get_in_bounds: "E_in_bounds r c \<Longrightarrow> E_get b r c = Inr (b (r, c))"
  by (simp add: E_in_bounds_def E_get_def py_index_def)

lemma E_set_in_bounds: "E_in_bounds r c \<Longrightarrow> E_set b r c v = Inr (b((r, c) := v))"
  by (simp add: E_in_bounds_def E_set_def py_index_def)

lemma py_index_range: "py_index i = Some j \<Longrightarrow> 0 \<le> j \<and> j < 8 \<and> (j = i \<or> j = i + 8)"
  by (auto simp: py_index_def split: if_splits)

lemma E_get_SomeD:
  "E_get b r c = Inr v \<Longrightarrow> \<exists>i j. py_index r = Some i \<and> py_index c = Some j \<and> v = b (i, j)"
  by (auto simp: E_get_def split: option.splits)

lemma E_set_SomeD:
  "E_set b r c v = Inr b' \<Longrightarrow> \<exists>i j. py_index r = Some i \<and> py_index c = Some j \<and> b' = b((i, j) := v)"
  by (auto simp: E_set_def split: option.splits)

lemma E_count_upd_le:
  "E_count (b(q := v)) \<le> E_count b + (if v \<noteq> EMPTY \<and> b q = EMPTY \<and> q \<in> set all_squares then 1 else 0)"
proof -
  define S where "S = {x \<in> set all_squares. b x \<noteq> EMPTY}"
  define S' where "S' = {x \<in> set all_squares. (b(q := v)) x \<noteq> EMPTY}"
  have cnt: "E_count b = card S" "E_count (b(q := v)) = card S'"
    by (simp_all only: E_count_card S_def S'_def)
  have fin: "finite S" by (simp add: S_def)
  show ?thesis
  proof (cases "v \<noteq> EMPTY \<and> b q = EMPTY \<and> q \<in> set all_squares")
    case True
    have "S' \<subseteq> insert q S" by (auto simp: S_def S'_def)
    then have "card S' \<le> card (insert q S)" using fin by (intro card_mono) auto
    also have "\<dots> \<le> card S + 1" using fin by (simp add: card_insert_if)
    finally have "card S' \<le> card S + (if v \<noteq> EMPTY \<and> b q = EMPTY \<and> q \<in> set all_squares then 1 else 0)"
      using True by simp
    then show ?thesis by (simp only: cnt)
  next
    case False
    have "S' \<subseteq> S" using False by (auto simp: S_def S'_def split: if_splits)
    then have "card S' \<le> card S" using fin by (intro card_mono) auto
    then have "card S' \<le> card S + (if v \<noteq> EMPTY \<and> b q = EMPTY \<and> q \<in> set all_squares then 1 else 0)"
      by simp
    then show ?thesis by (simp only: cnt)
  qed
qed

lemma E_count_remove:
  assumes "b q \<noteq> EMPTY" "q \<in> set all_squares"
  shows "E_count (b(q := EMPTY)) + 1 = E_count b"
proof -
  define S where "S = {x \<in> set all_squares. b x \<noteq> EMPTY}"
  define S' where "S' = {x \<in> set all_squares. (b(q := EMPTY)) x \<noteq> EMPTY}"
  have cnt: "E_count b = card S" "E_count (b(q := EMPTY)) = card S'"
    by (simp_all only: E_count_card S_def S'_def)
  have "S' = S - {q}" by (auto simp: S_def S'_def)
  moreover have "q \<in> S" "finite S" using assms by (simp_all add: S_def)
  ultimately have "card S' + 1 = card S" using card_Suc_Diff1[of S q] by simp
  then show ?thesis by (simp only: cnt)
qed

lemma E_jump_count:
  assumes inb: "E_in_bounds (cur_r + dr) (cur_c + dc)" "E_in_bounds (cur_r + 2 * dr) (cur_c + 2 * dc)"
    and mid: "E_get bs (cur_r + dr) (cur_c + dc) = Inr mid_piece" "piece_owner mid_piece \<noteq> None"
    and land: "E_get bs (cur_r + 2 * dr) (cur_c + 2 * dc) = Inr EMPTY"
    and s1: "E_set (E_clone bs) (cur_r + dr) (cur_c + dc) EMPTY = Inr s1"
    and s2: "E_set s1 cur_r cur_c EMPTY = Inr s2"
    and s3: "E_set s2 (cur_r + 2 * dr) (cur_c + 2 * dc) p = Inr new"
  shows "2 * E_count new + 1 < 2 * E_count bs + (if E_get bs cur_r cur_c = Inr p then 0 else 2)"
proof -
  define m where "m = (cur_r + dr, cur_c + dc)"
  define l where "l = (cur_r + 2 * dr, cur_c + 2 * dc)"
  have bm: "bs m = mid_piece" and bl: "bs l = EMPTY"
    using mid(1) land inb by (simp_all add: E_get_in_bounds m_def l_def)
  have mne: "bs m \<noteq> EMPTY" using mid(2) bm by (auto simp: piece_owner_def)
  have ms: "m \<in> set all_squares" and ls: "l \<in> set all_squares"
    using inb by (simp_all add: m_def l_def set_all_squares E_in_bounds_def)
  have ml: "m \<noteq> l" using mne bl by metis
  have s1_eq: "s1 = bs(m := EMPTY)"
    using s1 inb by (simp add: E_set_in_bounds E_clone_def m_def)
  from E_set_SomeD[OF s2] obtain i j where ij: "py_index cur_r = Some i" "py_index cur_c = Some j"
    and s2_eq: "s2 = s1((i, j) := EMPTY)" by blast
  have new_eq: "new = s2(l := p)"
    using s3 inb by (simp add: E_set_in_bounds l_def)
  have getcur: "E_get bs cur_r cur_c = Inr (bs (i, j))" using ij by (simp add: E_get_def)
  have ijm: "(i, j) \<noteq> m"
  proof
    assume eq: "(i, j) = m"
    from py_index_range[OF ij(1)] py_index_range[OF ij(2)] eq inb
    have "dr = 0 \<and> dc = 0" by (auto simp: m_def E_in_bounds_def)
    then have "m = l" by (simp add: m_def l_def)
    then show False using ml by simp
  qed
  have c1: "E_count s1 + 1 = E_count bs"
    unfolding s1_eq using E_count_remove[of bs m] mne ms by simp
  have s1ij: "s1 (i, j) = bs (i, j)" using ijm by (simp add: s1_eq)
  have ijs: "(i, j) \<in> set all_squares"
    using py_index_range[OF ij(1)] py_index_range[OF ij(2)] by (simp add: set_all_squares)
  have s2l: "s2 l = EMPTY" using bl by (simp add: s2_eq s1_eq)
  have c3: "E_count new \<le> E_count s2 + (if p \<noteq> EMPTY then 1 else 0)"
    unfolding new_eq using E_count_upd_le[of s2 l p] s2l ls by (simp split: if_splits)
  show ?thesis
  proof (cases "bs (i, j) = EMPTY")
    case True
    then have "s2 = s1" using s1ij by (simp add: s2_eq fun_upd_idem)
    then show ?thesis using c1 c3 getcur True by (auto split: if_splits)
  next
    case False
    have "E_count s2 + 1 = E_count s1"
      unfolding s2_eq using E_count_remove[of s1 "(i, j)"] False s1ij ijs by simp
    then show ?thesis using c1 c3 by (auto split: if_splits)
  qed
qed

subsection \<open>\<open>_find_captures_from\<close>: the capture search\<close>

text \<open>
  The nested function \<open>dfs(board_snapshot, cur_r, cur_c, path)\<close> appends to the list
  \<open>results\<close> of the enclosing call and reads its \<open>owner\<close>; here both are arguments and
  \<open>results\<close> is returned. \<open>E_dfs_loop\<close> is the loop over the directions still to try,
  returning \<open>moved\<close> and \<open>results\<close>.
\<close>

function E_dfs :: "Player option \<Rightarrow> E_board \<Rightarrow> int \<Rightarrow> int \<Rightarrow> pos list \<Rightarrow> paths \<Rightarrow> py_exn + paths"
  and E_dfs_loop :: "Player option \<Rightarrow> E_board \<Rightarrow> int \<Rightarrow> int \<Rightarrow> pos list \<Rightarrow> Piece \<Rightarrow> (int \<times> int) list
      \<Rightarrow> bool \<Rightarrow> paths \<Rightarrow> py_exn + (bool \<times> paths)"
where
  "E_dfs owner board_snapshot cur_r cur_c path results =
     (case E_get board_snapshot cur_r cur_c of
        Inl e \<Rightarrow> Inl e
      | Inr p \<Rightarrow>
          (case E_dfs_loop owner board_snapshot cur_r cur_c path p directions False results of
             Inl e \<Rightarrow> Inl e
           | Inr (moved, results') \<Rightarrow>
               Inr (if \<not> moved \<and> length path > 1 then results' @ [path] else results')))"
| "E_dfs_loop owner board_snapshot cur_r cur_c path p [] moved results = Inr (moved, results)"
| "E_dfs_loop owner board_snapshot cur_r cur_c path p ((dr, dc) # ds) moved results =
     (if \<not> (E_in_bounds (cur_r + dr) (cur_c + dc) \<and> E_in_bounds (cur_r + 2 * dr) (cur_c + 2 * dc))
      then E_dfs_loop owner board_snapshot cur_r cur_c path p ds moved results
      else
       (case E_get board_snapshot (cur_r + dr) (cur_c + dc) of
          Inl e \<Rightarrow> Inl e
        | Inr mid_piece \<Rightarrow>
       (case E_get board_snapshot (cur_r + 2 * dr) (cur_c + 2 * dc) of
          Inl e \<Rightarrow> Inl e
        | Inr land_piece \<Rightarrow>
          if land_piece \<noteq> EMPTY
          then E_dfs_loop owner board_snapshot cur_r cur_c path p ds moved results
          else if piece_owner mid_piece = None \<or> piece_owner mid_piece = owner
          then E_dfs_loop owner board_snapshot cur_r cur_c path p ds moved results
          else if \<not> is_king p \<and> ((owner = Some Player_RED \<and> dr > 0) \<or> (owner = Some Player_BLACK \<and> dr < 0))
          then E_dfs_loop owner board_snapshot cur_r cur_c path p ds moved results
          else
           (case E_set (E_clone board_snapshot) (cur_r + dr) (cur_c + dc) EMPTY of
              Inl e \<Rightarrow> Inl e
            | Inr s1 \<Rightarrow>
           (case E_set s1 cur_r cur_c EMPTY of
              Inl e \<Rightarrow> Inl e
            | Inr s2 \<Rightarrow>
           (case E_set s2 (cur_r + 2 * dr) (cur_c + 2 * dc) p of
              Inl e \<Rightarrow> Inl e
            | Inr new_snapshot \<Rightarrow>
           (case E_dfs owner new_snapshot (cur_r + 2 * dr) (cur_c + 2 * dc)
                   (path @ [(cur_r + 2 * dr, cur_c + 2 * dc)]) results of
              Inl e \<Rightarrow> Inl e
            | Inr results' \<Rightarrow>
                E_dfs_loop owner board_snapshot cur_r cur_c path p ds True results')))))))"
  by pat_completeness auto

termination
proof (relation "measures [\<lambda>x. case x of Inl (ow, b, r, c, pa, rs) \<Rightarrow> 2 * E_count b + 1
                               | Inr (ow, b, r, c, pa, p, ds, mv, rs) \<Rightarrow>
                                   2 * E_count b + (if E_get b r c = Inr p then 0 else 2),
                           \<lambda>x. case x of Inl _ \<Rightarrow> 0 | Inr (ow, b, r, c, pa, p, ds, mv, rs) \<Rightarrow> length ds]",
    goal_cases)
  case 1 show ?case by simp
next
  case 2 then show ?case by simp
next
  case 3 then show ?case by simp
next
  case 4 then show ?case by simp
next
  case 5 then show ?case by simp
next
  case 6 then show ?case by simp
next
  case (7 owner bs cur_r cur_c path p dr dc ds moved results mid_piece land_piece s1 s2 new)
  then show ?case using E_jump_count[of cur_r dr cur_c dc bs mid_piece s1 s2 p new] by simp
next
  case 8 then show ?case by simp
qed

subsection \<open>Move generation, move application, end of game\<close>

fun simple_steps_loop :: "E_board \<Rightarrow> int \<Rightarrow> int \<Rightarrow> (int \<times> int) list \<Rightarrow> paths \<Rightarrow> py_exn + paths" where
  "simple_steps_loop b r c [] moves = Inr moves"
| "simple_steps_loop b r c ((dr, dc) # steps) moves =
     (if \<not> E_in_bounds (r + dr) (c + dc) then simple_steps_loop b r c steps moves
      else (case E_get b (r + dr) (c + dc) of
              Inl e \<Rightarrow> Inl e
            | Inr q \<Rightarrow>
                if q = EMPTY then simple_steps_loop b r c steps (moves @ [[(r, c), (r + dr, c + dc)]])
                else simple_steps_loop b r c steps moves))"

definition find_simple_moves_from :: "E_board \<Rightarrow> int \<Rightarrow> int \<Rightarrow> py_exn + paths" where
  "find_simple_moves_from b r c =
     (case E_get b r c of
        Inl e \<Rightarrow> Inl e
      | Inr piece \<Rightarrow>
          if piece = EMPTY then Inr []
          else simple_steps_loop b r c
                 (if is_king piece then [(-1, -1), (-1, 1), (1, -1), (1, 1)]
                  else if piece_owner piece = Some Player_RED then [(-1, -1), (-1, 1)]
                  else [(1, -1), (1, 1)]) [])"

definition find_captures_from :: "E_board \<Rightarrow> int \<Rightarrow> int \<Rightarrow> py_exn + paths" where
  "find_captures_from b r c =
     (case E_get b r c of
        Inl e \<Rightarrow> Inl e
      | Inr piece \<Rightarrow>
          if piece = EMPTY then Inr []
          else E_dfs (piece_owner piece) (E_clone b) r c [(r, c)] [])"

text \<open>
  A call \<open>self.f(...)\<close> looks \<open>f\<close> up on the \<open>Board\<close> object, whose attributes are the
  methods of the class body and \<open>grid\<close>; the lookup of any other name raises
  AttributeError before the call is made. The module-level functions are not among them.
\<close>

definition Board_attributes :: "string list" where
  "Board_attributes =
     [''__init__'', ''setup_initial'', ''clone'', ''in_bounds'', ''get'', ''set'', ''render'', ''grid'']"

definition self_method :: "string \<Rightarrow> py_exn + 'a \<Rightarrow> py_exn + 'a" where
  "self_method name call = (if name \<in> set Board_attributes then call else Inl AttributeError)"

fun legal_moves_loop :: "E_board \<Rightarrow> Player \<Rightarrow> pos list \<Rightarrow> paths \<Rightarrow> paths \<Rightarrow> py_exn + (paths \<times> paths)" where
  "legal_moves_loop b player [] captures quiets = Inr (captures, quiets)"
| "legal_moves_loop b player ((r, c) # sqs) captures quiets =
     (case E_get b r c of
        Inl e \<Rightarrow> Inl e
      | Inr p \<Rightarrow>
          if piece_owner p \<noteq> Some player then legal_moves_loop b player sqs captures quiets
          else (case self_method ''_find_captures_from'' (find_captures_from b r c) of
                  Inl e \<Rightarrow> Inl e
                | Inr caps \<Rightarrow>
                    if caps = []
                    then (case self_method ''_find_simple_moves_from'' (find_simple_moves_from b r c) of
                            Inl e \<Rightarrow> Inl e
                          | Inr steps \<Rightarrow> legal_moves_loop b player sqs (captures @ caps) (quiets @ steps))
                    else legal_moves_loop b player sqs (captures @ caps) quiets))"

definition jumps_of :: "pos list \<Rightarrow> int" where
  "jumps_of m = int (length m) - 1"

definition legal_moves :: "E_board \<Rightarrow> Player \<Rightarrow> bool \<Rightarrow> py_exn + paths" where
  "legal_moves b player max_capture =
     (case legal_moves_loop b player all_squares [] [] of
        Inl e \<Rightarrow> Inl e
      | Inr (captures, quiets) \<Rightarrow>
          (case captures of
             [] \<Rightarrow> Inr quiets
           | m # ms \<Rightarrow>
               if max_capture
               then (let maxlen = fold max (map jumps_of ms) (jumps_of m)
                     in Inr (filter (\<lambda>m. jumps_of m = maxlen) captures))
               else Inr captures))"

fun apply_move_loop :: "E_board \<Rightarrow> int \<Rightarrow> int \<Rightarrow> pos list \<Rightarrow> py_exn + (E_board \<times> int \<times> int)" where
  "apply_move_loop b src_r src_c [] = Inr (b, src_r, src_c)"
| "apply_move_loop b src_r src_c ((dst_r, dst_c) # rest) =
     (if \<bar>dst_r - src_r\<bar> = 2 \<and> \<bar>dst_c - src_c\<bar> = 2
      then (case E_set b ((dst_r + src_r) div 2) ((dst_c + src_c) div 2) EMPTY of
              Inl e \<Rightarrow> Inl e
            | Inr b' \<Rightarrow> apply_move_loop b' dst_r dst_c rest)
      else apply_move_loop b dst_r dst_c rest)"

definition apply_move :: "E_board \<Rightarrow> pos list \<Rightarrow> py_exn + E_board" where
  "apply_move b move =
     (if move = [] \<or> length move < 2 then Inl ValueError
      else (case hd move of (src_r, src_c) \<Rightarrow>
        (case E_get b src_r src_c of
           Inl e \<Rightarrow> Inl e
         | Inr piece \<Rightarrow>
             if piece = EMPTY then Inl ValueError
             else (case E_set b src_r src_c EMPTY of
                     Inl e \<Rightarrow> Inl e
                   | Inr b1 \<Rightarrow>
                       (case apply_move_loop b1 src_r src_c (tl move) of
                          Inl e \<Rightarrow> Inl e
                        | Inr (b2, last_r, last_c) \<Rightarrow> E_set b2 last_r last_c (promote piece last_r))))))"

definition player_exists :: "E_board \<Rightarrow> Player \<Rightarrow> bool" where
  "player_exists b player \<longleftrightarrow> (\<exists>(r, c) \<in> set all_squares. piece_owner (b (r, c)) = Some player)"

definition is_game_over :: "E_board \<Rightarrow> py_exn + bool" where
  "is_game_over b =
     (if \<not> player_exists b Player_RED \<or> \<not> player_exists b Player_BLACK then Inr True
      else (case self_method ''legal_moves'' (legal_moves b Player_RED True) of
              Inl e \<Rightarrow> Inl e
            | Inr red \<Rightarrow>
                if red = [] then Inr True
                else (case self_method ''legal_moves'' (legal_moves b Player_BLACK True) of
                        Inl e \<Rightarrow> Inl e
                      | Inr black \<Rightarrow> Inr (black = []))))"

definition E_winner :: "E_board \<Rightarrow> py_exn + Player option" where
  "E_winner b =
     (let red_exists = player_exists b Player_RED; black_exists = player_exists b Player_BLACK in
      if \<not> red_exists \<and> black_exists then Inr (Some Player_BLACK)
      else if \<not> black_exists \<and> red_exists then Inr (Some Player_RED)
      else (case self_method ''legal_moves'' (legal_moves b Player_RED True) of
              Inl e \<Rightarrow> Inl e
            | Inr red \<Rightarrow>
                (case self_method ''legal_moves'' (legal_moves b Player_BLACK True) of
                   Inl e \<Rightarrow> Inl e
                 | Inr black \<Rightarrow>
                     (let red_moves = (red \<noteq> []); black_moves = (black \<noteq> []) in
                      if red_moves \<and> \<not> black_moves then Inr (Some Player_RED)
                      else if black_moves \<and> \<not> red_moves then Inr (Some Player_BLACK)
                      else Inr None))))"

subsection \<open>Notation: \<open>coord_to_pos\<close>, \<open>pos_to_coord\<close>\<close>

text \<open>
  A Python string is a sequence of code points. \<open>coord_to_pos_u\<close> is \<open>coord_to_pos\<close> on
  such a sequence, given the two builtins it calls: \<open>lower c\<close>, the code points of
  \<open>str.lower\<close> of the one-character string \<open>c\<close> (it can have more than one: the
  lower-case form of U+0130 has two), and \<open>digit c\<close>, the value \<open>int\<close> gives the
  one-character string \<open>c\<close>, \<open>None\<close> where \<open>int\<close> raises ValueError. The statements
  of the body run in their order: \<open>s[0]\<close> raises IndexError on the empty string, \<open>ord\<close>
  raises TypeError unless its argument has length one, \<open>s[1]\<close> raises IndexError on a
  one-character string, then \<open>int\<close> is called.
\<close>

type_synonym code_point = nat

definition coord_to_pos_u ::
  "(code_point \<Rightarrow> code_point list) \<Rightarrow> (code_point \<Rightarrow> int option) \<Rightarrow> code_point list \<Rightarrow> py_exn + pos" where
  "coord_to_pos_u lower digit s =
     (case s of
        [] \<Rightarrow> Inl IndexError
      | s0 # s' \<Rightarrow>
          (case lower s0 of
             [l] \<Rightarrow>
               (let col = int l - int (of_char CHR ''a'') in
                case s' of
                  [] \<Rightarrow> Inl IndexError
                | s1 # s'' \<Rightarrow>
                    (case digit s1 of
                       None \<Rightarrow> Inl ValueError
                     | Some d \<Rightarrow> (let row = d - 1; r = 8 - 1 - row; c = col in Inr (r, c))))
           | _ \<Rightarrow> Inl TypeError))"

text \<open>
  The same two functions on strings whose characters have code points below 256, the type
  \<open>string\<close>, with the builtins written out there: \<open>py_lower\<close> is \<open>str.lower\<close> on one
  such character; \<open>py_int_char\<close> is \<open>int\<close> of a one-character string (ValueError
  unless it is a decimal digit); \<open>py_str_int\<close> is the decimal text of an integer, as an
  f-string prints it. \<open>chr\<close> raises ValueError outside \<open>range(0x110000)\<close>; a column
  whose letter would lie above code point 255 is outside what \<open>char\<close> represents.
\<close>

definition py_lower :: "char \<Rightarrow> char" where
  "py_lower ch =
     (let n = (of_char ch :: nat) in
      if (65 \<le> n \<and> n \<le> 90) \<or> (192 \<le> n \<and> n \<le> 222 \<and> n \<noteq> 215) then char_of (n + 32) else ch)"

definition py_int_char :: "char \<Rightarrow> py_exn + int" where
  "py_int_char ch =
     (let n = (of_char ch :: int) in if 48 \<le> n \<and> n \<le> 57 then Inr (n - 48) else Inl ValueError)"

definition coord_to_pos :: "string \<Rightarrow> py_exn + pos" where
  "coord_to_pos s =
     (case s of
        [] \<Rightarrow> Inl IndexError
      | s0 # s' \<Rightarrow>
          (let col = of_char (py_lower s0) - of_char CHR ''a'' in
           case s' of
             [] \<Rightarrow> Inl IndexError
           | s1 # s'' \<Rightarrow>
               (case py_int_char s1 of
                  Inl e \<Rightarrow> Inl e
                | Inr d \<Rightarrow> (let row = d - 1; r = 8 - 1 - row; c = col in Inr (r, c)))))"

fun digits :: "nat \<Rightarrow> string" where
  "digits n = (if n < 10 then [char_of (48 + n)] else digits (n div 10) @ [char_of (48 + n mod 10)])"

definition py_str_int :: "int \<Rightarrow> string" where
  "py_str_int i = (if i < 0 then CHR ''-'' # digits (nat (- i)) else digits (nat i))"

definition pos_to_coord :: "pos \<Rightarrow> py_exn + string" where
  "pos_to_coord pos =
     (case pos of (r, c) \<Rightarrow>
        (let row1 = 8 - r in
         if of_char CHR ''a'' + c < 0 \<or> of_char CHR ''a'' + c > 1114111 then Inl ValueError
         else Inr (char_of (of_char CHR ''a'' + c) # py_str_int row1)))"

section \<open>Properties of the notation functions and of malformed input\<close>

lemma round_trip_all:
  "\<forall>r \<in> set [0..7]. \<forall>c \<in> set [0..7].
     (case pos_to_coord (r, c) of Inl e \<Rightarrow> False | Inr s \<Rightarrow> coord_to_pos s = Inr (r, c))"
  by code_simp

text \<open>
  C7. For every square with \<open>0 <= row, col < 8\<close>, \<open>pos_to_coord\<close> returns a string and
  \<open>coord_to_pos\<close> of that string is the square again.
\<close>

theorem notation_round_trip:
  assumes "0 \<le> r" "r < 8" "0 \<le> c" "c < 8"
  shows "\<exists>s. pos_to_coord (r, c) = Inr s \<and> coord_to_pos s = Inr (r, c)"
proof -
  have "r \<in> set [0..7]" "c \<in> set [0..7]" using assms by simp_all
  with round_trip_all
  have "case pos_to_coord (r, c) of Inl e \<Rightarrow> False | Inr s \<Rightarrow> coord_to_pos s = Inr (r, c)"
    by blast
  then show ?thesis by (cases "pos_to_coord (r, c)") auto
qed

theorem notation_round_trip_witness:
  "pos_to_coord (3, 4) = Inr ''e5'' \<and> (\<exists>s. pos_to_coord (3, 4) = Inr s \<and> coord_to_pos s = Inr (3, 4))"
proof -
  have "pos_to_coord (3, 4) = Inr ''e5''" by code_simp
  then show ?thesis using notation_round_trip[of 3 4] by simp
qed

lemma coord_to_pos_latin1:
  "coord_to_pos s =
     coord_to_pos_u (\<lambda>n. [of_char (py_lower (char_of n))])
       (\<lambda>n. case py_int_char (char_of n) of Inl e \<Rightarrow> None | Inr d \<Rightarrow> Some d) (map of_char s)"
proof -
  have "py_int_char s1 = Inl e \<Longrightarrow> e = ValueError" for s1 e
    by (auto simp: py_int_char_def Let_def split: if_splits)
  then show ?thesis
    by (auto simp: coord_to_pos_def coord_to_pos_u_def Let_def of_nat_of_char split: list.splits sum.splits)
qed

text \<open>
  C8 as stated fails: \<open>coord_to_pos\<close> checks no range. The column letter z and the row
  digit 9 give the square (-1, 25) and no error.
\<close>

theorem coord_to_pos_unchecked_counterexample:
  "coord_to_pos ''z9'' = Inr (- 1, 25) \<and> \<not> E_in_bounds (- 1) 25"
  by (simp add: coord_to_pos_def py_lower_def py_int_char_def E_in_bounds_def)

text \<open>
  C8, amended. \<open>apply_move\<close> raises ValueError on a path with fewer than two squares.
  \<open>coord_to_pos\<close> checks no range. It raises IndexError on the empty string, TypeError
  when the lower-case form of the first character is not a single character, IndexError on
  a one-character string whose lower-case form is a single character, and ValueError when
  \<open>int\<close> gives the second character no value. Otherwise, with \<open>d\<close> the value of the
  second character and \<open>l\<close> the lower-case first character, it returns row \<open>8 - d\<close>
  and column \<open>ord(l) - ord('a')\<close>, whether or not they lie in 0..7.
\<close>

theorem malformed_inputs:
  "(length move < 2 \<longrightarrow> apply_move b move = Inl ValueError)
   \<and> coord_to_pos_u lower digit [] = Inl IndexError
   \<and> (length (lower s0) \<noteq> 1 \<longrightarrow> coord_to_pos_u lower digit (s0 # rest) = Inl TypeError)
   \<and> (lower s0 = [l] \<longrightarrow> coord_to_pos_u lower digit [s0] = Inl IndexError)
   \<and> (lower s0 = [l] \<and> digit s1 = None \<longrightarrow> coord_to_pos_u lower digit (s0 # s1 # rest) = Inl ValueError)
   \<and> (lower s0 = [l] \<and> digit s1 = Some d
        \<longrightarrow> coord_to_pos_u lower digit (s0 # s1 # rest) = Inr (8 - d, int l - 97))"
proof -
  have "length (lower s0) \<noteq> 1 \<Longrightarrow> coord_to_pos_u lower digit (s0 # rest) = Inl TypeError"
    by (cases "lower s0"; cases "tl (lower s0)") (auto simp: coord_to_pos_u_def)
  then show ?thesis
    by (auto simp: apply_move_def coord_to_pos_u_def Let_def)
qed

text \<open>
  A fragment of the two builtins, enough for the examples: \<open>str.lower\<close> on the ASCII
  letters and on U+0130, whose lower-case form is the two code points U+0069 U+0307, and
  \<open>int\<close> on the ASCII digits and the Arabic-Indic digits U+0660 to U+0669.
\<close>

definition lower_sample :: "code_point \<Rightarrow> code_point list" where
  "lower_sample c = (if c = 304 then [105, 775] else if 65 \<le> c \<and> c \<le> 90 then [c + 32] else [c])"

definition digit_sample :: "code_point \<Rightarrow> int option" where
  "digit_sample c =
     (if 48 \<le> c \<and> c \<le> 57 then Some (int c - 48)
      else if 1632 \<le> c \<and> c \<le> 1641 then Some (int c - 1632)
      else None)"

text \<open>
  C8, amended, on the path \<open>[(5, 0)]\<close>, on the strings \<open>""\<close>, \<open>"a"\<close>, \<open>"ax"\<close>,
  \<open>"Z9"\<close>, on U+0130 followed by \<open>"1"\<close>, and on \<open>"a"\<close> followed by U+0663.
\<close>

theorem malformed_inputs_witness:
  "apply_move setup_initial [(5, 0)] = Inl ValueError
   \<and> coord_to_pos_u lower_sample digit_sample [] = Inl IndexError
   \<and> coord_to_pos_u lower_sample digit_sample [304, 49] = Inl TypeError
   \<and> coord_to_pos_u lower_sample digit_sample [97] = Inl IndexError
   \<and> coord_to_pos_u lower_sample digit_sample [97, 120] = Inl ValueError
   \<and> coord_to_pos_u lower_sample digit_sample [90, 57] = Inr (- 1, 25)
   \<and> coord_to_pos_u lower_sample digit_sample [97, 1635] = Inr (5, 0)"
  using malformed_inputs[of "[(5, 0)]" setup_initial lower_sample digit_sample 304 "[49]" 105 120 9]
    malformed_inputs[of "[]" setup_initial lower_sample digit_sample 97 "[]" 97 120 9]
    malformed_inputs[of "[]" setup_initial lower_sample digit_sample 90 "[]" 122 57 9]
    malformed_inputs[of "[]" setup_initial lower_sample digit_sample 97 "[]" 97 1635 3]
  by (simp add: lower_sample_def digit_sample_def)

section \<open>The capture search of checkersEngine.py returns\<close>

text \<open>
  One iteration of the loop of \<open>dfs\<close>, in two derived equations: \<open>E_can_jump\<close> collects
  the tests that let the iteration reach the jump, \<open>E_jump\<close> is the snapshot it builds.
\<close>

definition E_can_jump :: "Player option \<Rightarrow> E_board \<Rightarrow> int \<Rightarrow> int \<Rightarrow> Piece \<Rightarrow> int \<Rightarrow> int \<Rightarrow> bool" where
  "E_can_jump owner bs cur_r cur_c p dr dc \<longleftrightarrow>
     E_in_bounds (cur_r + dr) (cur_c + dc) \<and> E_in_bounds (cur_r + 2 * dr) (cur_c + 2 * dc)
     \<and> bs (cur_r + 2 * dr, cur_c + 2 * dc) = EMPTY
     \<and> piece_owner (bs (cur_r + dr, cur_c + dc)) \<noteq> None
     \<and> piece_owner (bs (cur_r + dr, cur_c + dc)) \<noteq> owner
     \<and> \<not> (\<not> is_king p \<and> ((owner = Some Player_RED \<and> dr > 0) \<or> (owner = Some Player_BLACK \<and> dr < 0)))"

definition E_jump :: "E_board \<Rightarrow> int \<Rightarrow> int \<Rightarrow> int \<Rightarrow> int \<Rightarrow> Piece \<Rightarrow> py_exn + E_board" where
  "E_jump bs cur_r cur_c dr dc p =
     (case E_set (E_clone bs) (cur_r + dr) (cur_c + dc) EMPTY of
        Inl e \<Rightarrow> Inl e
      | Inr s1 \<Rightarrow>
          (case E_set s1 cur_r cur_c EMPTY of
             Inl e \<Rightarrow> Inl e
           | Inr s2 \<Rightarrow> E_set s2 (cur_r + 2 * dr) (cur_c + 2 * dc) p))"

lemma E_dfs_loop_skip:
  assumes "\<not> E_can_jump owner bs cur_r cur_c p dr dc"
  shows "E_dfs_loop owner bs cur_r cur_c path p ((dr, dc) # ds) moved results
       = E_dfs_loop owner bs cur_r cur_c path p ds moved results"
proof (cases "E_in_bounds (cur_r + dr) (cur_c + dc) \<and> E_in_bounds (cur_r + 2 * dr) (cur_c + 2 * dc)")
  case False
  then show ?thesis by simp
next
  case True
  then have "E_get bs (cur_r + dr) (cur_c + dc) = Inr (bs (cur_r + dr, cur_c + dc))"
    "E_get bs (cur_r + 2 * dr) (cur_c + 2 * dc) = Inr (bs (cur_r + 2 * dr, cur_c + 2 * dc))"
    by (simp_all add: E_get_in_bounds)
  then show ?thesis using assms True by (auto simp: E_can_jump_def)
qed

lemma E_dfs_loop_jump:
  assumes "E_can_jump owner bs cur_r cur_c p dr dc"
  shows "E_dfs_loop owner bs cur_r cur_c path p ((dr, dc) # ds) moved results
       = (case E_jump bs cur_r cur_c dr dc p of
            Inl e \<Rightarrow> Inl e
          | Inr new_snapshot \<Rightarrow>
              (case E_dfs owner new_snapshot (cur_r + 2 * dr) (cur_c + 2 * dc)
                      (path @ [(cur_r + 2 * dr, cur_c + 2 * dc)]) results of
                 Inl e \<Rightarrow> Inl e
               | Inr results' \<Rightarrow> E_dfs_loop owner bs cur_r cur_c path p ds True results'))"
proof -
  from assms have inb: "E_in_bounds (cur_r + dr) (cur_c + dc)" "E_in_bounds (cur_r + 2 * dr) (cur_c + 2 * dc)"
    by (simp_all add: E_can_jump_def)
  then have g: "E_get bs (cur_r + dr) (cur_c + dc) = Inr (bs (cur_r + dr, cur_c + dc))"
    "E_get bs (cur_r + 2 * dr) (cur_c + 2 * dc) = Inr (bs (cur_r + 2 * dr, cur_c + 2 * dc))"
    by (simp_all add: E_get_in_bounds)
  have c: "bs (cur_r + 2 * dr, cur_c + 2 * dc) = EMPTY"
    "piece_owner (bs (cur_r + dr, cur_c + dc)) \<noteq> None"
    "piece_owner (bs (cur_r + dr, cur_c + dc)) \<noteq> owner"
    "\<not> (\<not> is_king p \<and> ((owner = Some Player_RED \<and> dr > 0) \<or> (owner = Some Player_BLACK \<and> dr < 0)))"
    using assms by (simp_all add: E_can_jump_def)
  show ?thesis
    by (simp only: E_dfs_loop.simps(2) inb g c E_jump_def sum.case simp_thms if_False if_True)
       (simp split: sum.splits)
qed

lemma E_dfs_induct':
  assumes dfs: "\<And>owner bs cur_r cur_c path results.
      (\<And>p. E_get bs cur_r cur_c = Inr p \<Longrightarrow> Q owner bs cur_r cur_c path p directions False results)
      \<Longrightarrow> P owner bs cur_r cur_c path results"
    and nil: "\<And>owner bs cur_r cur_c path p moved results. Q owner bs cur_r cur_c path p [] moved results"
    and cons: "\<And>owner bs cur_r cur_c path p dr dc ds moved results.
      (\<not> E_can_jump owner bs cur_r cur_c p dr dc \<Longrightarrow> Q owner bs cur_r cur_c path p ds moved results) \<Longrightarrow>
      (\<And>new. E_can_jump owner bs cur_r cur_c p dr dc \<Longrightarrow> E_jump bs cur_r cur_c dr dc p = Inr new
          \<Longrightarrow> P owner new (cur_r + 2 * dr) (cur_c + 2 * dc) (path @ [(cur_r + 2 * dr, cur_c + 2 * dc)]) results) \<Longrightarrow>
      (\<And>new res. E_can_jump owner bs cur_r cur_c p dr dc \<Longrightarrow> E_jump bs cur_r cur_c dr dc p = Inr new
          \<Longrightarrow> E_dfs owner new (cur_r + 2 * dr) (cur_c + 2 * dc) (path @ [(cur_r + 2 * dr, cur_c + 2 * dc)]) results = Inr res
          \<Longrightarrow> Q owner bs cur_r cur_c path p ds True res) \<Longrightarrow>
      Q owner bs cur_r cur_c path p ((dr, dc) # ds) moved results"
  shows "P owner bs cur_r cur_c path results" and "Q owner bs cur_r cur_c path p ds moved results"
proof (induction owner bs cur_r cur_c path results and owner bs cur_r cur_c path p ds moved results
    rule: E_dfs_E_dfs_loop.induct)
  case (1 owner bs cur_r cur_c path results)
  show ?case by (rule dfs) (rule "1.IH")
next
  case (2 owner bs cur_r cur_c path p moved results)
  show ?case by (rule nil)
next
  case (3 owner bs cur_r cur_c path p dr dc ds moved results)
  define mid_piece where "mid_piece = bs (cur_r + dr, cur_c + dc)"
  define land_piece where "land_piece = bs (cur_r + 2 * dr, cur_c + 2 * dc)"
  have g: "E_get bs (cur_r + dr) (cur_c + dc) = Inr mid_piece"
    "E_get bs (cur_r + 2 * dr) (cur_c + 2 * dc) = Inr land_piece"
    if "E_in_bounds (cur_r + dr) (cur_c + dc) \<and> E_in_bounds (cur_r + 2 * dr) (cur_c + 2 * dc)"
    using that by (simp_all add: E_get_in_bounds mid_piece_def land_piece_def)
  show ?case
  proof (rule cons)
    assume nj: "\<not> E_can_jump owner bs cur_r cur_c p dr dc"
    show "Q owner bs cur_r cur_c path p ds moved results"
    proof (cases "E_in_bounds (cur_r + dr) (cur_c + dc) \<and> E_in_bounds (cur_r + 2 * dr) (cur_c + 2 * dc)")
      case False
      then show ?thesis by (rule "3.IH"(1))
    next
      case inb: True
      then have ninb: "\<not> \<not> (E_in_bounds (cur_r + dr) (cur_c + dc) \<and> E_in_bounds (cur_r + 2 * dr) (cur_c + 2 * dc))"
        by simp
      show ?thesis
      proof (cases "land_piece \<noteq> EMPTY")
        case True
        then show ?thesis by (rule "3.IH"(2)[OF ninb g[OF inb]])
      next
        case l: False
        show ?thesis
        proof (cases "piece_owner mid_piece = None \<or> piece_owner mid_piece = owner")
          case True
          then show ?thesis by (rule "3.IH"(3)[OF ninb g[OF inb] l])
        next
          case m: False
          have "\<not> is_king p \<and> (owner = Some Player_RED \<and> 0 < dr \<or> owner = Some Player_BLACK \<and> dr < 0)"
            using nj inb l m by (auto simp: E_can_jump_def mid_piece_def land_piece_def)
          then show ?thesis by (rule "3.IH"(4)[OF ninb g[OF inb] l m])
        qed
      qed
    qed
  next
    fix new
    assume j: "E_can_jump owner bs cur_r cur_c p dr dc" and e: "E_jump bs cur_r cur_c dr dc p = Inr new"
    from j have inb: "E_in_bounds (cur_r + dr) (cur_c + dc) \<and> E_in_bounds (cur_r + 2 * dr) (cur_c + 2 * dc)"
      by (simp add: E_can_jump_def)
    then have ninb: "\<not> \<not> (E_in_bounds (cur_r + dr) (cur_c + dc) \<and> E_in_bounds (cur_r + 2 * dr) (cur_c + 2 * dc))"
      by simp
    from j have l: "\<not> land_piece \<noteq> EMPTY" and m: "\<not> (piece_owner mid_piece = None \<or> piece_owner mid_piece = owner)"
      and k: "\<not> (\<not> is_king p \<and> (owner = Some Player_RED \<and> 0 < dr \<or> owner = Some Player_BLACK \<and> dr < 0))"
      by (auto simp: E_can_jump_def mid_piece_def land_piece_def)
    from e obtain s1 s2 where s: "E_set (E_clone bs) (cur_r + dr) (cur_c + dc) EMPTY = Inr s1"
      "E_set s1 cur_r cur_c EMPTY = Inr s2" "E_set s2 (cur_r + 2 * dr) (cur_c + 2 * dc) p = Inr new"
      by (auto simp: E_jump_def split: sum.splits)
    show "P owner new (cur_r + 2 * dr) (cur_c + 2 * dc) (path @ [(cur_r + 2 * dr, cur_c + 2 * dc)]) results"
      by (rule "3.IH"(5)[OF ninb g[OF inb] l m k s])
  next
    fix new res
    assume j: "E_can_jump owner bs cur_r cur_c p dr dc" and e: "E_jump bs cur_r cur_c dr dc p = Inr new"
      and r: "E_dfs owner new (cur_r + 2 * dr) (cur_c + 2 * dc) (path @ [(cur_r + 2 * dr, cur_c + 2 * dc)]) results = Inr res"
    from j have inb: "E_in_bounds (cur_r + dr) (cur_c + dc) \<and> E_in_bounds (cur_r + 2 * dr) (cur_c + 2 * dc)"
      by (simp add: E_can_jump_def)
    then have ninb: "\<not> \<not> (E_in_bounds (cur_r + dr) (cur_c + dc) \<and> E_in_bounds (cur_r + 2 * dr) (cur_c + 2 * dc))"
      by simp
    from j have l: "\<not> land_piece \<noteq> EMPTY" and m: "\<not> (piece_owner mid_piece = None \<or> piece_owner mid_piece = owner)"
      and k: "\<not> (\<not> is_king p \<and> (owner = Some Player_RED \<and> 0 < dr \<or> owner = Some Player_BLACK \<and> dr < 0))"
      by (auto simp: E_can_jump_def mid_piece_def land_piece_def)
    from e obtain s1 s2 where s: "E_set (E_clone bs) (cur_r + dr) (cur_c + dc) EMPTY = Inr s1"
      "E_set s1 cur_r cur_c EMPTY = Inr s2" "E_set s2 (cur_r + 2 * dr) (cur_c + 2 * dc) p = Inr new"
      by (auto simp: E_jump_def split: sum.splits)
    show "Q owner bs cur_r cur_c path p ds True res"
      by (rule "3.IH"(6)[OF ninb g[OF inb] l m k s r])
  qed
qed

declare E_dfs.simps(1) [simp del]
declare E_dfs_loop.simps(2) [simp del]

lemma py_index_in_bounds: "E_in_bounds r c \<Longrightarrow> py_index r = Some r \<and> py_index c = Some c"
  by (simp add: E_in_bounds_def py_index_def)

lemma E_set_ok: "py_index r \<noteq> None \<Longrightarrow> py_index c \<noteq> None \<Longrightarrow> \<exists>b'. E_set b r c v = Inr b'"
  by (auto simp: E_set_def)

lemma E_get_ok: "py_index r \<noteq> None \<Longrightarrow> py_index c \<noteq> None \<Longrightarrow> \<exists>v. E_get b r c = Inr v"
  by (auto simp: E_get_def)

lemma E_jump_ok:
  assumes "E_can_jump owner bs cur_r cur_c p dr dc" "py_index cur_r \<noteq> None" "py_index cur_c \<noteq> None"
  shows "\<exists>new. E_jump bs cur_r cur_c dr dc p = Inr new"
proof -
  from assms(1) have inb: "E_in_bounds (cur_r + dr) (cur_c + dc)" "E_in_bounds (cur_r + 2 * dr) (cur_c + 2 * dc)"
    by (simp_all add: E_can_jump_def)
  obtain s2 where "E_set ((E_clone bs)((cur_r + dr, cur_c + dc) := EMPTY)) cur_r cur_c EMPTY = Inr s2"
    using E_set_ok[OF assms(2,3)] by blast
  then show ?thesis using inb by (simp add: E_jump_def E_set_in_bounds)
qed

lemma E_dfs_no_exn:
  "py_index cur_r \<noteq> None \<Longrightarrow> py_index cur_c \<noteq> None
     \<Longrightarrow> \<exists>res. E_dfs owner bs cur_r cur_c path results = Inr res"
  "py_index cur_r \<noteq> None \<Longrightarrow> py_index cur_c \<noteq> None
     \<Longrightarrow> \<exists>res. E_dfs_loop owner bs cur_r cur_c path p ds moved results = Inr res"
proof (induction owner bs cur_r cur_c path results and owner bs cur_r cur_c path p ds moved results
    rule: E_dfs_induct')
  case (1 owner bs cur_r cur_c path results)
  from E_get_ok[OF "1.prems", of bs] obtain p where p: "E_get bs cur_r cur_c = Inr p" by blast
  from "1.IH"[OF p "1.prems"] obtain res where
    "E_dfs_loop owner bs cur_r cur_c path p directions False results = Inr res" by blast
  then show ?case using p by (cases res) (simp add: E_dfs.simps(1))
next
  case (2 owner bs cur_r cur_c path p moved results)
  show ?case by simp
next
  case (3 owner bs cur_r cur_c path p dr dc ds moved results)
  show ?case
  proof (cases "E_can_jump owner bs cur_r cur_c p dr dc")
    case False
    then show ?thesis using "3.IH"(1) "3.prems" by (simp add: E_dfs_loop_skip)
  next
    case True
    from E_jump_ok[OF True "3.prems"] obtain new where n: "E_jump bs cur_r cur_c dr dc p = Inr new" by blast
    from True have "E_in_bounds (cur_r + 2 * dr) (cur_c + 2 * dc)" by (simp add: E_can_jump_def)
    then have li: "py_index (cur_r + 2 * dr) \<noteq> None" "py_index (cur_c + 2 * dc) \<noteq> None"
      using py_index_in_bounds by auto
    from "3.IH"(2)[OF True n li] obtain res where
      r: "E_dfs owner new (cur_r + 2 * dr) (cur_c + 2 * dc) (path @ [(cur_r + 2 * dr, cur_c + 2 * dc)]) results = Inr res"
      by blast
    from "3.IH"(3)[OF True n r "3.prems"] show ?thesis
      by (simp add: E_dfs_loop_jump[OF True] n r)
  qed
qed

section \<open>Mandatory capture and the longest capture in game_logic.py\<close>

lemma simple_loop_values:
  "(d, caps) \<in> set (simple_loop b r c ds simple) \<Longrightarrow> (d, caps) \<in> set simple \<or> caps = []"
proof (induction b r c ds simple rule: simple_loop.induct)
  case (1 b r c simple)
  then show ?case by simp
next
  case (2 b r c dr dc ds simple)
  show ?case
  proof (cases "G_in_bounds (r + dr) (c + dc) \<and> G_get b (r + dr) (c + dc) = None")
    case True
    with 2 have "(d, caps) \<in> set (dict_assign simple (r + dr, c + dc) []) \<or> caps = []" by simp
    then show ?thesis using set_dict_assign[of simple "(r + dr, c + dc)" "[]"] by auto
  next
    case False
    with 2 show ?thesis by auto
  qed
qed

lemma get_valid_moves_uniform:
  assumes "get_valid_moves gb r c = Inr vs" "(d, caps) \<in> set vs" "caps \<noteq> []" "(d', caps') \<in> set vs"
  shows "caps' \<noteq> []"
proof (cases "G_get gb r c")
  case None
  then show ?thesis using assms by (simp add: get_valid_moves_def)
next
  case (Some p)
  obtain js where js: "capture_jumps gb r c = Inr js"
    using assms(1) Some by (cases "capture_jumps gb r c") (simp_all add: get_valid_moves_def)
  show ?thesis
  proof (cases "js = []")
    case True
    then have "vs = simple_loop gb r c (dirs_of p) []"
      using assms(1) Some js by (simp add: get_valid_moves_def)
    then show ?thesis using simple_loop_values[of d caps gb r c "dirs_of p" "[]"] assms(2,3) by simp
  next
    case False
    then have b: "best_per_dest js [] = Inr vs"
      using assms(1) Some js by (simp add: get_valid_moves_def)
    from best_per_dest_in[OF b assms(4)] obtain seqs where
      "(d', seqs) \<in> set js" "max_by_len seqs = Inr caps'" by auto
    then show ?thesis using capture_jumps_ok[OF js] max_by_len_in[of seqs caps']
      by (auto simp: jumps_ok_def)
  qed
qed

lemma get_all_moves_loop_in:
  "get_all_moves_loop b col sqs acc = Inr out \<Longrightarrow> (orig, vs) \<in> set out
   \<Longrightarrow> (orig, vs) \<in> set acc \<or> (\<exists>r c. orig = (r, c) \<and> get_valid_moves b r c = Inr vs)"
proof (induction b col sqs acc arbitrary: out rule: get_all_moves_loop.induct)
  case (1 b col moves)
  then show ?case by simp
next
  case (2 b col r c sqs moves)
  obtain legal where legal: "get_valid_moves b r c = Inr legal"
    using get_valid_moves_no_exn by blast
  show ?case
  proof (cases "G_get b r c")
    case None
    with 2 show ?thesis by simp
  next
    case (Some p)
    show ?thesis
    proof (cases "color p = col \<and> legal \<noteq> []")
      case True
      then have "get_all_moves_loop b col sqs (dict_assign moves (r, c) legal) = Inr out"
        using "2.prems"(1) Some legal by simp
      from "2.IH"(2)[OF Some _ legal _ this "2.prems"(2)] True
      have "(orig, vs) \<in> set (dict_assign moves (r, c) legal)
          \<or> (\<exists>r c. orig = (r, c) \<and> get_valid_moves b r c = Inr vs)" by simp
      then show ?thesis using set_dict_assign[of moves "(r, c)" legal] legal by auto
    next
      case False
      then have "get_all_moves_loop b col sqs moves = Inr out"
        using "2.prems"(1) Some legal by (auto split: if_splits)
      with 2 Some legal False show ?thesis by (auto split: if_splits)
    qed
  qed
qed

text \<open>
  The test of one iteration of the loop of \<open>dfs\<close>: the piece on \<open>(sr, sc)\<close> can jump
  in the direction \<open>(dr, dc)\<close>, over a piece of the other colour onto an empty square of
  the board.
\<close>

definition G_can_jump :: "G_board \<Rightarrow> int \<Rightarrow> int \<Rightarrow> piece \<Rightarrow> int \<Rightarrow> int \<Rightarrow> bool" where
  "G_can_jump bs sr sc piece dr dc \<longleftrightarrow>
     G_in_bounds (sr + dr) (sc + dc) \<and> G_in_bounds (sr + 2 * dr) (sc + 2 * dc)
     \<and> G_get bs (sr + dr) (sc + dc) \<noteq> None
     \<and> color (the (G_get bs (sr + dr) (sc + dc))) \<noteq> color piece
     \<and> G_get bs (sr + 2 * dr) (sc + 2 * dc) = None"

lemma setdefault_append_nonempty: "setdefault_append js k v \<noteq> []"
  by (cases js) (auto split: if_splits)

lemma G_dfs_found:
  "G_dfs sr sc bs cap js = Inr (f, js') \<Longrightarrow> f \<longrightarrow> js' \<noteq> []"
  "G_dfs_loop sr sc bs cap piece ds found js = Inr (f, js') \<Longrightarrow> (found \<longrightarrow> js \<noteq> [])
     \<Longrightarrow> (f \<longrightarrow> js' \<noteq> []) \<and> (f \<longleftrightarrow> found \<or> (\<exists>(dr, dc) \<in> set ds. G_can_jump bs sr sc piece dr dc))"
proof (induction sr sc bs cap js and sr sc bs cap piece ds found js
    arbitrary: f js' and f js' rule: G_dfs_G_dfs_loop.induct)
  case (1 sr sc board_state captured jumps)
  then show ?case by (auto split: option.splits)
next
  case (2 sr sc board_state captured piece found jumps)
  then show ?case by auto
next
  case (3 sr sc board_state captured piece dr dc ds found jumps)
  show ?case
  proof (cases "G_can_jump board_state sr sc piece dr dc")
    case False
    then have "G_dfs_loop sr sc board_state captured piece ds found jumps = Inr (f, js')"
      using "3.prems"(1) by (auto simp: G_can_jump_def split: if_splits)
    moreover have "\<not> (G_in_bounds (sr + dr) (sc + dc) \<and> G_in_bounds (sr + 2 * dr) (sc + 2 * dc))
      \<or> (G_in_bounds (sr + dr) (sc + dc) \<and> G_in_bounds (sr + 2 * dr) (sc + 2 * dc)
          \<and> \<not> (G_get board_state (sr + dr) (sc + dc) \<noteq> None
             \<and> color (the (G_get board_state (sr + dr) (sc + dc))) \<noteq> color piece
             \<and> G_get board_state (sr + 2 * dr) (sc + 2 * dc) = None))"
      using False by (auto simp: G_can_jump_def)
    ultimately have "(f \<longrightarrow> js' \<noteq> []) \<and> (f \<longleftrightarrow> found \<or> (\<exists>(dr, dc) \<in> set ds. G_can_jump board_state sr sc piece dr dc))"
      using "3.IH"(1)[of f js'] "3.IH"(4)[of f js'] "3.prems"(2) by blast
    then show ?thesis using False by auto
  next
    case True
    then have inb: "\<not> \<not> (G_in_bounds (sr + dr) (sc + dc) \<and> G_in_bounds (sr + 2 * dr) (sc + 2 * dc))"
      and jump: "G_get board_state (sr + dr) (sc + dc) \<noteq> None
             \<and> color (the (G_get board_state (sr + dr) (sc + dc))) \<noteq> color piece
             \<and> G_get board_state (sr + 2 * dr) (sc + 2 * dc) = None"
      by (auto simp: G_can_jump_def)
    from "3.prems"(1) inb jump obtain has_more jumps1 where
      rec: "G_dfs (sr + 2 * dr) (sc + 2 * dc)
                 (G_jump board_state sr sc (sr + dr) (sc + dc) (sr + 2 * dr) (sc + 2 * dc))
                 (captured @ [(sr + dr, sc + dc)]) jumps = Inr (has_more, jumps1)"
      and rest: "G_dfs_loop sr sc board_state captured piece ds True
                (if \<not> has_more
                 then setdefault_append jumps1 (sr + 2 * dr, sc + 2 * dc) (captured @ [(sr + dr, sc + dc)])
                 else jumps1) = Inr (f, js')"
      by (auto split: sum.splits)
    have "has_more \<longrightarrow> jumps1 \<noteq> []" using "3.IH"(2)[OF inb jump rec] .
    then have ne: "True \<longrightarrow> (if \<not> has_more
                 then setdefault_append jumps1 (sr + 2 * dr, sc + 2 * dc) (captured @ [(sr + dr, sc + dc)])
                 else jumps1) \<noteq> []"
      by (simp add: setdefault_append_nonempty)
    from "3.IH"(3)[OF inb jump rec refl rest ne] show ?thesis using True by auto
  qed
qed

lemma best_per_dest_nonempty:
  "best_per_dest js res = Inr out \<Longrightarrow> js \<noteq> [] \<or> res \<noteq> [] \<Longrightarrow> out \<noteq> []"
proof (induction js res arbitrary: out rule: best_per_dest.induct)
  case (1 result)
  then show ?case by simp
next
  case (2 dest seqs js result)
  from "2.prems"(1) obtain best where b: "max_by_len seqs = Inr best"
    and r: "best_per_dest js (dict_assign result dest best) = Inr out"
    by (auto split: sum.splits)
  have "dict_assign result dest best \<noteq> []" by (cases result) (auto split: if_splits)
  with "2.IH"[OF b r] show ?case by simp
qed

lemma get_valid_moves_capture:
  assumes p: "G_get b r c = Some p" and j: "\<exists>(dr, dc) \<in> set (dirs_of p). G_can_jump b r c p dr dc"
    and v: "get_valid_moves b r c = Inr vs"
  shows "vs \<noteq> [] \<and> (\<forall>(d, caps) \<in> set vs. caps \<noteq> [])"
proof -
  obtain js where js: "capture_jumps b r c = Inr js"
    using v p by (cases "capture_jumps b r c") (simp_all add: get_valid_moves_def)
  then obtain found where d: "G_dfs r c b [] [] = Inr (found, js)"
    by (auto simp: capture_jumps_def G_clone_def split: sum.splits)
  then have l: "G_dfs_loop r c b [] p (dirs_of p) False [] = Inr (found, js)" using p by simp
  from G_dfs_found(2)[OF l] j have "js \<noteq> []" by auto
  then have bp: "best_per_dest js [] = Inr vs" using v p js by (simp add: get_valid_moves_def)
  have "vs \<noteq> []" using best_per_dest_nonempty[OF bp] \<open>js \<noteq> []\<close> by simp
  moreover have "caps \<noteq> []" if "(d, caps) \<in> set vs" for d caps
  proof -
    from best_per_dest_in[OF bp that] obtain seqs where
      "(d, seqs) \<in> set js" "max_by_len seqs = Inr caps" by auto
    then show ?thesis using capture_jumps_ok[OF js] max_by_len_in[of seqs caps]
      by (auto simp: jumps_ok_def)
  qed
  ultimately show ?thesis by auto
qed

lemma map_of_dict_assign: "map_of (dict_assign m k v) = (map_of m)(k \<mapsto> v)"
  by (induction m k v rule: dict_assign.induct) auto

lemma get_all_moves_loop_map_of:
  "get_all_moves_loop b col sqs acc = Inr out \<Longrightarrow> distinct sqs \<Longrightarrow>
   map_of out q =
     (if q \<in> set sqs \<and> (\<exists>p. G_get b (fst q) (snd q) = Some p \<and> color p = col)
         \<and> get_valid_moves b (fst q) (snd q) \<noteq> Inr []
      then (case get_valid_moves b (fst q) (snd q) of Inr vs \<Rightarrow> Some vs | Inl e \<Rightarrow> None)
      else map_of acc q)"
proof (induction b col sqs acc arbitrary: out rule: get_all_moves_loop.induct)
  case (1 b col moves)
  then show ?case by simp
next
  case (2 b col r c sqs moves)
  obtain legal where legal: "get_valid_moves b r c = Inr legal"
    using get_valid_moves_no_exn by blast
  have d: "distinct sqs" "(r, c) \<notin> set sqs" using "2.prems"(2) by auto
  show ?case
  proof (cases "G_get b r c")
    case None
    then have "get_all_moves_loop b col sqs moves = Inr out" using "2.prems"(1) by simp
    from "2.IH"(1)[OF None this d(1)] None show ?thesis by (cases q) auto
  next
    case (Some p)
    show ?thesis
    proof (cases "color p = col \<and> legal \<noteq> []")
      case True
      then have "get_all_moves_loop b col sqs (dict_assign moves (r, c) legal) = Inr out"
        using "2.prems"(1) Some legal by simp
      from "2.IH"(2)[OF Some _ legal _ this d(1)] True
      show ?thesis using Some legal d(2) by (cases q) (auto simp: map_of_dict_assign)
    next
      case False
      then have l: "get_all_moves_loop b col sqs moves = Inr out"
        using "2.prems"(1) Some legal by (auto split: if_splits)
      show ?thesis
      proof (cases "color p = col")
        case True
        with False have "legal = []" by simp
        from "2.IH"(3)[OF Some True legal _ l d(1)] this show ?thesis
          using Some legal \<open>legal = []\<close> by (cases q) auto
      next
        case False
        from "2.IH"(4)[OF Some False l d(1)] show ?thesis using Some False by (cases q) auto
      qed
    qed
  qed
qed

lemma G_get_Some_in_squares: "G_get b r c = Some p \<Longrightarrow> (r, c) \<in> set all_squares"
  by (auto simp: G_get_def set_all_squares G_in_bounds_def split: if_splits)

text \<open>
  C1, amended. In \<open>get_all_moves\<close> the exclusion holds for each origin on its own. A
  piece of the player that can jump in one of its directions is listed, with at least one
  destination and with capturing destinations only. The destinations listed for any origin
  are all captures as soon as one of them is.
\<close>

theorem mandatory_capture:
  "(get_all_moves g col = Inr all_moves \<and> G_get (board g) r c = Some p \<and> color p = col
      \<and> (\<exists>(dr, dc) \<in> set (dirs_of p). G_can_jump (board g) r c p dr dc)
    \<longrightarrow> (\<exists>vs. map_of all_moves (r, c) = Some vs \<and> vs \<noteq> [] \<and> (\<forall>(d, caps) \<in> set vs. caps \<noteq> [])))
   \<and> (get_all_moves g col = Inr all_moves \<and> (orig, vs) \<in> set all_moves
        \<and> (\<exists>(d, caps) \<in> set vs. caps \<noteq> [])
      \<longrightarrow> (\<forall>(d, caps) \<in> set vs. caps \<noteq> []))"
proof (rule conjI; rule impI)
  assume a: "get_all_moves g col = Inr all_moves \<and> G_get (board g) r c = Some p \<and> color p = col
      \<and> (\<exists>(dr, dc) \<in> set (dirs_of p). G_can_jump (board g) r c p dr dc)"
  then have g: "get_all_moves_loop (board g) col all_squares [] = Inr all_moves"
    and p: "G_get (board g) r c = Some p" "color p = col"
    and j: "\<exists>(dr, dc) \<in> set (dirs_of p). G_can_jump (board g) r c p dr dc"
    by (auto simp: get_all_moves_def)
  obtain vs where v: "get_valid_moves (board g) r c = Inr vs" using get_valid_moves_no_exn by blast
  note c = get_valid_moves_capture[OF p(1) j v]
  have "map_of all_moves (r, c) = Some vs"
    using get_all_moves_loop_map_of[OF g distinct_all_squares, of "(r, c)"] p v c
      G_get_Some_in_squares[OF p(1)] by auto
  with c show "\<exists>vs. map_of all_moves (r, c) = Some vs \<and> vs \<noteq> [] \<and> (\<forall>(d, caps) \<in> set vs. caps \<noteq> [])"
    by blast
next
  assume a: "get_all_moves g col = Inr all_moves \<and> (orig, vs) \<in> set all_moves
        \<and> (\<exists>(d, caps) \<in> set vs. caps \<noteq> [])"
  then obtain r c where v: "get_valid_moves (board g) r c = Inr vs"
    using get_all_moves_loop_in[of "board g" col all_squares "[]" all_moves orig vs]
    by (auto simp: get_all_moves_def)
  from a obtain d caps where "(d, caps) \<in> set vs" "caps \<noteq> []" by auto
  from get_valid_moves_uniform[OF v this] show "\<forall>(d, caps) \<in> set vs. caps \<noteq> []" by auto
qed





section \<open>End of game\<close>

text \<open>
  \<open>legal_moves\<close> as the file has it: the lookup of \<open>_find_captures_from\<close> on the board
  raises AttributeError at the first square the player owns.
\<close>

lemma legal_moves_loop_raises:
  "(r, c) \<in> set sqs \<Longrightarrow> set sqs \<subseteq> set all_squares \<Longrightarrow> piece_owner (b (r, c)) = Some player
   \<Longrightarrow> legal_moves_loop b player sqs captures quiets = Inl AttributeError"
proof (induction sqs)
  case Nil
  then show ?case by simp
next
  case (Cons q sqs)
  obtain r' c' where q: "q = (r', c')" by (cases q)
  have "E_in_bounds r' c'" using Cons.prems(2) by (simp add: q set_all_squares E_in_bounds_def)
  then have g: "E_get b r' c' = Inr (b (r', c'))" by (rule E_get_in_bounds)
  show ?case
  proof (cases "piece_owner (b (r', c')) = Some player")
    case True
    then show ?thesis by (simp add: q g self_method_def Board_attributes_def)
  next
    case False
    then have "(r, c) \<in> set sqs" using Cons.prems(1,3) by (auto simp: q)
    then show ?thesis using Cons.IH Cons.prems(2,3) False by (simp add: q g)
  qed
qed

lemma legal_moves_raises:
  assumes "player_exists b player"
  shows "legal_moves b player max_capture = Inl AttributeError"
proof -
  from assms obtain r c where "(r, c) \<in> set all_squares" "piece_owner (b (r, c)) = Some player"
    by (auto simp: player_exists_def)
  then have "legal_moves_loop b player all_squares [] [] = Inl AttributeError"
    by (intro legal_moves_loop_raises) auto
  then show ?thesis by (simp add: legal_moves_def)
qed

lemma move_piece_applied:
  assumes "G_get (board g) sr sc = Some p" "color p = turn g"
    and "get_valid_moves (board g) sr sc = Inr valid" "map_of valid (er, ec) = Some captured"
    and "get_valid_moves (moved_board (board g) p sr sc er ec captured) er ec = Inr more_moves"
  shows "move_piece g (sr, sc) (er, ec) =
     Inr (if captured \<noteq> [] \<and> any_values more_moves
          then (Applied (Some (er, ec)), g\<lparr>board := moved_board (board g) p sr sc er ec captured\<rparr>)
          else (Applied None, g\<lparr>board := moved_board (board g) p sr sc er ec captured,
                                  turn := next_turn (turn g)\<rparr>))"
  using assms by (simp add: move_piece_def Let_def)

lemma move_piece_rejected:
  assumes "G_get (board g) sr sc = None \<or> (\<exists>p. G_get (board g) sr sc = Some p \<and> color p \<noteq> turn g)
      \<or> (\<exists>valid. get_valid_moves (board g) sr sc = Inr valid \<and> map_of valid (er, ec) = None)"
  shows "\<exists>msg. move_piece g (sr, sc) (er, ec) = Inr (Rejected msg, g)"
  using assms by (auto simp: move_piece_def get_valid_moves_def split: option.splits)

lemma move_piece_cases:
  obtains (rejected) msg where "move_piece g (sr, sc) (er, ec) = Inr (Rejected msg, g)"
  | (applied) p valid captured more_moves where
      "G_get (board g) sr sc = Some p" "color p = turn g"
      "get_valid_moves (board g) sr sc = Inr valid" "map_of valid (er, ec) = Some captured"
      "get_valid_moves (moved_board (board g) p sr sc er ec captured) er ec = Inr more_moves"
proof (cases "G_get (board g) sr sc")
  case None
  then show ?thesis using move_piece_rejected[of g sr sc er ec] rejected by blast
next
  case (Some p)
  obtain valid where v: "get_valid_moves (board g) sr sc = Inr valid"
    using get_valid_moves_no_exn by blast
  show ?thesis
  proof (cases "color p = turn g")
    case False
    then show ?thesis using move_piece_rejected[of g sr sc er ec] Some rejected by blast
  next
    case True
    show ?thesis
    proof (cases "map_of valid (er, ec)")
      case None
      then show ?thesis using move_piece_rejected[of g sr sc er ec] v rejected by blast
    next
      case (Some captured)
      obtain more_moves where
        "get_valid_moves (moved_board (board g) p sr sc er ec captured) er ec = Inr more_moves"
        using get_valid_moves_no_exn by blast
      with \<open>G_get (board g) sr sc = Some p\<close> True v Some show ?thesis by (rule applied)
    qed
  qed
qed

lemma move_piece_winner:
  assumes "move_piece g s e = Inr (res, g')"
  shows "winner g' = winner g"
proof -
  obtain sr sc er ec where se: "s = (sr, sc)" "e = (er, ec)" by (cases s; cases e) auto
  show ?thesis
  proof (cases rule: move_piece_cases[of g sr sc er ec])
    case (rejected msg)
    then show ?thesis using assms se by simp
  next
    case (applied p valid captured more_moves)
    from move_piece_applied[OF applied] assms se show ?thesis by (auto split: if_splits)
  qed
qed

text \<open>
  C5, amended. No terminal check runs inside \<open>move_piece\<close>: it never changes the winner
  field. \<open>winner\<close> is a check of its own; on a board where one side owns pieces and the
  other owns none it reports the side that owns pieces.
\<close>

theorem terminal_check:
  "(move_piece g s e = Inr (res, g') \<longrightarrow> winner g' = winner g)
   \<and> (player_exists b Player_RED \<and> \<not> player_exists b Player_BLACK
        \<longrightarrow> E_winner b = Inr (Some Player_RED))
   \<and> (player_exists b Player_BLACK \<and> \<not> player_exists b Player_RED
        \<longrightarrow> E_winner b = Inr (Some Player_BLACK))"
  using move_piece_winner[of g s e res g'] by (simp add: E_winner_def Let_def)

section \<open>Example positions\<close>

text \<open>
  Boards given by the list of their pieces; squares not listed are empty.
\<close>

definition G_board_of :: "(pos \<times> piece) list \<Rightarrow> G_board" where
  "G_board_of ps = map_of ps"

definition E_board_of :: "(pos \<times> Piece) list \<Rightarrow> E_board" where
  "E_board_of ps = (\<lambda>q. case map_of ps q of None \<Rightarrow> EMPTY | Some p \<Rightarrow> p)"

definition man :: "string \<Rightarrow> piece" where
  "man col = \<lparr>color = col, king = False\<rparr>"

definition two_reds :: game where
  "two_reds = \<lparr>board = G_board_of [((0, 1), man ''RED''), ((2, 1), man ''RED''), ((3, 2), man ''BLACK'')],
                turn = ''RED'', winner = None\<rparr>"

text \<open>
  C1 as stated fails for \<open>get_all_moves\<close>: the RED man on (2, 1) has a capture, and the
  RED man on (0, 1) is still listed with its two simple moves.
\<close>

theorem get_all_moves_mixed_counterexample:
  "get_all_moves two_reds ''RED''
     = Inr [((0, 1), [((1, 0), []), ((1, 2), [])]), ((2, 1), [((4, 3), [(3, 2)])])]"
  by code_simp

text \<open>
  C1, amended, on the origin (2, 1) of the position above: the man there can jump in the
  direction (1, 1).
\<close>

theorem mandatory_capture_witness:
  "get_all_moves two_reds ''RED''
     = Inr [((0, 1), [((1, 0), []), ((1, 2), [])]), ((2, 1), [((4, 3), [(3, 2)])])]
   \<and> G_can_jump (board two_reds) 2 1 (man ''RED'') 1 1
   \<and> (\<exists>vs. map_of [((0 :: int, 1 :: int), [((1 :: int, 0 :: int), [] :: pos list), ((1, 2), [])]),
                      ((2, 1), [((4, 3), [(3, 2)])])] (2, 1) = Some vs
         \<and> vs \<noteq> [] \<and> list_all (\<lambda>(d, caps). caps \<noteq> []) vs)
   \<and> list_all (\<lambda>(d, caps). caps \<noteq> []) [((4 :: int, 3 :: int), [(3 :: int, 2 :: int)])]"
proof -
  have g: "get_all_moves two_reds ''RED''
     = Inr [((0, 1), [((1, 0), []), ((1, 2), [])]), ((2, 1), [((4, 3), [(3, 2)])])]" by code_simp
  have p: "G_get (board two_reds) 2 1 = Some (man ''RED'')" "color (man ''RED'') = ''RED''"
    by code_simp+
  have j: "G_can_jump (board two_reds) 2 1 (man ''RED'') 1 1" by code_simp
  have d: "(1, 1) \<in> set (dirs_of (man ''RED''))" by code_simp
  from j d have e: "\<exists>(dr, dc) \<in> set (dirs_of (man ''RED'')). G_can_jump (board two_reds) 2 1 (man ''RED'') dr dc"
    by blast
  from mandatory_capture[of two_reds "''RED''"
      "[((0, 1), [((1, 0), []), ((1, 2), [])]), ((2, 1), [((4, 3), [(3, 2)])])]" 2 1 "man ''RED''"
      "(2, 1)" "[((4, 3), [(3, 2)])]"]
  show ?thesis using g p j e by (simp add: list_all_iff)
qed

definition fork :: G_board where
  "fork = G_board_of [((2, 3), man ''RED''), ((3, 2), man ''BLACK''), ((3, 4), man ''BLACK''),
                      ((5, 6), man ''BLACK'')]"




text \<open>
  A BLACK man on (1, 0) shut in by the RED man on (0, 1) and the edge of the board, and a
  second RED man on (3, 4), RED to move.
\<close>

definition shut_in :: game where
  "shut_in = \<lparr>board = G_board_of [((0, 1), man ''RED''), ((1, 0), man ''BLACK''), ((3, 4), man ''RED'')],
               turn = ''RED'', winner = None\<rparr>"

text \<open>
  C5 as stated fails: after RED's move from (3, 4) to (4, 3) BLACK is to move, still owns
  its man and has no legal move, RED has legal moves, and no winner is reported.
\<close>

theorem no_winner_after_move_counterexample:
  "(case move_piece shut_in (3, 4) (4, 3) of
      Inr (Applied None, g') \<Rightarrow>
        winner g' = None \<and> turn g' = ''BLACK''
        \<and> G_get (board g') 1 0 = Some \<lparr>color = ''BLACK'', king = False\<rparr>
        \<and> get_all_moves g' ''BLACK'' = Inr []
        \<and> get_all_moves g' ''RED''
            = Inr [((0, 1), [((1, 2), [])]), ((4, 3), [((5, 2), []), ((5, 4), [])])]
    | _ \<Rightarrow> False)"
  by code_simp

definition lone_red :: E_board where
  "lone_red = E_board_of [((5, 2), RED)]"

definition lone_black :: E_board where
  "lone_black = E_board_of [((7, 0), BLACK)]"

text \<open>
  C5, amended, on the first move of a game and on two boards with a single man.
\<close>

theorem terminal_check_witness:
  "(\<exists>g'. move_piece new_game (2, 1) (3, 0) = Inr (Applied None, g') \<and> winner g' = winner new_game)
   \<and> E_winner lone_red = Inr (Some Player_RED)
   \<and> E_winner lone_black = Inr (Some Player_BLACK)"
proof -
  have "case move_piece new_game (2, 1) (3, 0) of Inr (res, g') \<Rightarrow> res = Applied None | _ \<Rightarrow> False"
    by code_simp
  then obtain res g' where m: "move_piece new_game (2, 1) (3, 0) = Inr (res, g')" "res = Applied None"
    by (cases "move_piece new_game (2, 1) (3, 0)") auto
  have p: "player_exists lone_red Player_RED" "\<not> player_exists lone_red Player_BLACK"
    "player_exists lone_black Player_BLACK" "\<not> player_exists lone_black Player_RED"
    by code_simp+
  from terminal_check[of new_game "(2, 1)" "(3, 0)" res g' lone_red]
    terminal_check[of new_game "(2, 1)" "(3, 0)" res g' lone_black] m p
  show ?thesis by auto
qed

section \<open>Promotion is never undone\<close>

text \<open>
  A sequence of \<open>move_piece\<close> calls, and the square on the first board of the piece that
  stands on \<open>q\<close> after them: an applied move from \<open>s\<close> to \<open>e\<close> carries the piece of \<open>s\<close>
  to \<open>e\<close>, a rejected call moves nothing.
\<close>

fun run_moves :: "game \<Rightarrow> (pos \<times> pos) list \<Rightarrow> py_exn + game" where
  "run_moves g [] = Inr g"
| "run_moves g ((s, e) # ms) =
     (case move_piece g s e of Inl x \<Rightarrow> Inl x | Inr (res, g') \<Rightarrow> run_moves g' ms)"

fun origin :: "game \<Rightarrow> (pos \<times> pos) list \<Rightarrow> pos \<Rightarrow> pos" where
  "origin g [] q = q"
| "origin g ((s, e) # ms) q =
     (case move_piece g s e of
        Inl x \<Rightarrow> q
      | Inr (Rejected msg, g') \<Rightarrow> origin g' ms q
      | Inr (Applied i, g') \<Rightarrow> (let q' = origin g' ms q in if q' = e then s else q'))"

lemma G_get_remove_captured:
  "G_get (remove_captured b caps) r c = Some x \<Longrightarrow> G_get b r c = Some x"
  unfolding remove_captured_def
proof (induction caps arbitrary: b)
  case Nil
  then show ?case by simp
next
  case (Cons a caps)
  obtain cr cc where a: "a = (cr, cc)" by (cases a)
  from Cons.prems have "G_get (fold (\<lambda>(cr, cc) b'. G_remove b' cr cc) caps (G_remove b cr cc)) r c = Some x"
    by (simp add: a)
  from Cons.IH[OF this] show ?case
    by (auto simp: G_get_def G_remove_def G_set_def split: if_splits)
qed

lemma kinged_rank: "color (kinged p er) = color p \<and> (king p \<longrightarrow> king (kinged p er))"
  by (simp add: kinged_def make_king_def Let_def)

lemma moved_board_origin:
  assumes "G_get (moved_board b p sr sc er ec captured) r c = Some p'"
  shows "(if (r, c) = (er, ec) then p' = kinged p er else G_get b r c = Some p')"
proof -
  define b3 where "b3 = remove_captured (G_remove (G_set b er ec (Some p)) sr sc) captured"
  have mb: "moved_board b p sr sc er ec captured
      = (case G_get b3 er ec of None \<Rightarrow> b3 | Some q \<Rightarrow> G_set b3 er ec (Some (kinged p er)))"
    unfolding b3_def by (simp add: moved_board_def Let_def)
  have b3: "G_get b3 r c = Some x \<Longrightarrow> (r, c) \<noteq> (er, ec) \<Longrightarrow> G_get b r c = Some x" for x
    unfolding b3_def
    by (drule G_get_remove_captured) (auto simp: G_get_def G_remove_def G_set_def split: if_splits)
  show ?thesis
  proof (cases "(r, c) = (er, ec)")
    case True
    then show ?thesis using assms unfolding mb
      by (cases "G_get b3 er ec") (auto simp: G_get_def G_set_def split: if_splits)
  next
    case False
    have "G_get b3 r c = Some p'" using assms False unfolding mb
      by (cases "G_get b3 er ec") (auto simp: G_get_def G_set_def split: if_splits)
    from b3[OF this False] False show ?thesis by auto
  qed
qed

lemma move_piece_applied_board:
  assumes "G_get (board g) sr sc = Some p" "color p = turn g"
    and "get_valid_moves (board g) sr sc = Inr valid" "map_of valid (er, ec) = Some captured"
    and "move_piece g (sr, sc) (er, ec) = Inr (res, g')"
  shows "board g' = moved_board (board g) p sr sc er ec captured \<and> (\<exists>i. res = Applied i)"
proof -
  obtain more_moves where
    m: "get_valid_moves (moved_board (board g) p sr sc er ec captured) er ec = Inr more_moves"
    using get_valid_moves_no_exn by blast
  show ?thesis
  proof (cases "captured \<noteq> [] \<and> any_values more_moves")
    case True
    then show ?thesis using move_piece_applied[OF assms(1-4) m] assms(5) by simp
  next
    case False
    then show ?thesis using move_piece_applied[OF assms(1-4) m] assms(5) by auto
  qed
qed

lemma move_piece_origin:
  assumes "move_piece g (sr, sc) (er, ec) = Inr (Applied i, g')" "G_get (board g') r c = Some p'"
  shows "\<exists>p. (if (r, c) = (er, ec) then G_get (board g) sr sc else G_get (board g) r c) = Some p
           \<and> color p = color p' \<and> (king p \<longrightarrow> king p')"
proof (cases rule: move_piece_cases[of g sr sc er ec])
  case (rejected msg)
  then show ?thesis using assms by simp
next
  case (applied p valid captured more_moves)
  from move_piece_applied_board[OF applied(1-4) assms(1)]
  have bd: "board g' = moved_board (board g) p sr sc er ec captured" by simp
  have *: "if (r, c) = (er, ec) then p' = kinged p er else G_get (board g) r c = Some p'"
    by (rule moved_board_origin[OF assms(2)[unfolded bd]])
  show ?thesis
  proof (cases "(r, c) = (er, ec)")
    case True
    with * have "p' = kinged p er" by auto
    then show ?thesis using True applied(1) kinged_rank[of p er] by auto
  next
    case False
    with * have "G_get (board g) r c = Some p'" by auto
    then show ?thesis using False by auto
  qed
qed

lemma move_piece_rejected_same:
  assumes "move_piece g s e = Inr (Rejected msg, g')"
  shows "g' = g"
proof -
  obtain sr sc er ec where se: "s = (sr, sc)" "e = (er, ec)" by (cases s; cases e) auto
  show ?thesis
  proof (cases rule: move_piece_cases[of g sr sc er ec])
    case (rejected msg)
    then show ?thesis using assms se by simp
  next
    case (applied p valid captured more_moves)
    from move_piece_applied[OF applied] assms se show ?thesis by (auto split: if_splits)
  qed
qed

lemma run_moves_origin:
  "run_moves g ms = Inr g' \<Longrightarrow> G_get (board g') r c = Some p'
   \<Longrightarrow> \<exists>p. G_get (board g) (fst (origin g ms (r, c))) (snd (origin g ms (r, c))) = Some p
         \<and> color p = color p' \<and> (king p \<longrightarrow> king p')"
proof (induction g ms arbitrary: g' rule: run_moves.induct)
  case (1 g)
  then show ?case by simp
next
  case (2 g s e ms)
  obtain sr sc er ec where se: "s = (sr, sc)" "e = (er, ec)" by (cases s; cases e) auto
  from "2.prems"(1) obtain res g1 where m: "move_piece g s e = Inr (res, g1)"
    and r: "run_moves g1 ms = Inr g'" by (auto split: sum.splits)
  obtain qr qc where q: "origin g1 ms (r, c) = (qr, qc)" by (cases "origin g1 ms (r, c)")
  from "2.IH"[OF m refl r "2.prems"(2)] obtain p1 where
    p1: "G_get (board g1) qr qc = Some p1" "color p1 = color p'" "king p1 \<longrightarrow> king p'"
    by (auto simp: q)
  show ?case
  proof (cases res)
    case (Rejected msg)
    then have "g1 = g" using m move_piece_rejected_same by blast
    then show ?thesis using p1 m Rejected q by auto
  next
    case (Applied i)
    from move_piece_origin[OF m[unfolded se Applied] p1(1)]
    obtain p where p: "(if (qr, qc) = (er, ec) then G_get (board g) sr sc else G_get (board g) qr qc) = Some p"
      "color p = color p1" "king p \<longrightarrow> king p1"
      by auto
    have "origin g ((s, e) # ms) (r, c) = (if (qr, qc) = e then s else (qr, qc))"
      using m Applied by (simp add: q Let_def)
    then show ?thesis using p p1 se by (auto split: if_splits)
  qed
qed

text \<open>
  The same for a sequence of \<open>apply_move\<close> calls of the engine; the squares of a path
  are read as the grid indexes them.
\<close>

definition final_square :: "pos list \<Rightarrow> pos" where
  "final_square move = (case last move of (r, c) \<Rightarrow> (the (py_index r), the (py_index c)))"

definition source_square :: "pos list \<Rightarrow> pos" where
  "source_square move = (case hd move of (r, c) \<Rightarrow> (the (py_index r), the (py_index c)))"

fun E_run :: "E_board \<Rightarrow> pos list list \<Rightarrow> py_exn + E_board" where
  "E_run b [] = Inr b"
| "E_run b (m # ms) = (case apply_move b m of Inl x \<Rightarrow> Inl x | Inr b' \<Rightarrow> E_run b' ms)"

fun E_origin :: "E_board \<Rightarrow> pos list list \<Rightarrow> pos \<Rightarrow> pos" where
  "E_origin b [] q = q"
| "E_origin b (m # ms) q =
     (case apply_move b m of
        Inl x \<Rightarrow> q
      | Inr b' \<Rightarrow> (let q' = E_origin b' ms q in if q' = final_square m then source_square m else q'))"

lemma E_set_eq:
  "E_set b r c v = Inr b' \<Longrightarrow> b' = b((the (py_index r), the (py_index c)) := v)"
  by (auto simp: E_set_def split: option.splits)

lemma E_get_eq:
  "E_get b r c = Inr v \<Longrightarrow> v = b (the (py_index r), the (py_index c))"
  by (auto simp: E_get_def split: option.splits)

lemma apply_move_loop_spec:
  "apply_move_loop b r c rest = Inr (b2, lr, lc)
   \<Longrightarrow> (lr, lc) = last ((r, c) # rest) \<and> (\<forall>q. b2 q = EMPTY \<or> b2 q = b q)"
proof (induction b r c rest rule: apply_move_loop.induct)
  case (1 b src_r src_c)
  then show ?case by simp
next
  case (2 b src_r src_c dst_r dst_c rest)
  show ?case
  proof (cases "\<bar>dst_r - src_r\<bar> = 2 \<and> \<bar>dst_c - src_c\<bar> = 2")
    case True
    with "2.prems" obtain b1 where s: "E_set b ((dst_r + src_r) div 2) ((dst_c + src_c) div 2) EMPTY = Inr b1"
      and l: "apply_move_loop b1 dst_r dst_c rest = Inr (b2, lr, lc)"
      by (auto split: sum.splits)
    from "2.IH"(1)[OF True s l] have la: "(lr, lc) = last ((dst_r, dst_c) # rest)"
      and i: "\<forall>q. b2 q = EMPTY \<or> b2 q = b1 q" by auto
    have "b1 q = EMPTY \<or> b1 q = b q" for q using E_set_eq[OF s] by simp
    with i have "\<forall>q. b2 q = EMPTY \<or> b2 q = b q" by metis
    with la show ?thesis by simp
  next
    case False
    with "2.prems" have "apply_move_loop b dst_r dst_c rest = Inr (b2, lr, lc)" by auto
    from "2.IH"(2)[OF False this] show ?thesis by simp
  qed
qed

lemma promote_rank:
  "piece_owner (promote p row) = piece_owner p \<and> (is_king p \<longrightarrow> is_king (promote p row))
   \<and> (p \<noteq> EMPTY \<longrightarrow> promote p row \<noteq> EMPTY)"
  by (cases p) (auto simp: promote_def piece_owner_def is_king_def)

lemma apply_move_origin:
  assumes "apply_move b m = Inr b'"
  shows "b (source_square m) \<noteq> EMPTY
     \<and> (\<forall>q. if q = final_square m then b' q = promote (b (source_square m)) (fst (last m))
             else b' q = EMPTY \<or> b' q = b q)"
proof -
  from assms have ne: "m \<noteq> []" by (auto simp: apply_move_def)
  obtain src_r src_c where h: "hd m = (src_r, src_c)" by (cases "hd m")
  from assms ne h obtain piece b1 b2 lr lc where
    g: "E_get b src_r src_c = Inr piece" and p: "piece \<noteq> EMPTY"
    and s1: "E_set b src_r src_c EMPTY = Inr b1"
    and l: "apply_move_loop b1 src_r src_c (tl m) = Inr (b2, lr, lc)"
    and s2: "E_set b2 lr lc (promote piece lr) = Inr b'"
    by (auto simp: apply_move_def split: sum.splits if_splits)
  have piece: "piece = b (source_square m)" using E_get_eq[OF g] h by (simp add: source_square_def)
  have "(src_r, src_c) # tl m = m" using ne h by (cases m) auto
  with apply_move_loop_spec[OF l] have la: "(lr, lc) = last m" and b2: "\<forall>q. b2 q = EMPTY \<or> b2 q = b1 q"
    by auto
  have fs: "final_square m = (the (py_index lr), the (py_index lc))"
    using la[symmetric] by (simp add: final_square_def)
  have b1: "b1 q = EMPTY \<or> b1 q = b q" for q using E_set_eq[OF s1] by simp
  have b': "b' = b2(final_square m := promote piece lr)" using E_set_eq[OF s2] fs by simp
  have lr: "fst (last m) = lr" using la[symmetric] by simp
  have "b' q = EMPTY \<or> b' q = b q" if "q \<noteq> final_square m" for q
    using that b' b1[of q] b2 by (metis fun_upd_other)
  moreover have "b' (final_square m) = promote (b (source_square m)) (fst (last m))"
    using b' piece lr by simp
  ultimately show ?thesis using p piece by auto
qed

lemma E_run_origin:
  "E_run b ms = Inr b' \<Longrightarrow> b' q \<noteq> EMPTY
   \<Longrightarrow> b (E_origin b ms q) \<noteq> EMPTY \<and> piece_owner (b (E_origin b ms q)) = piece_owner (b' q)
       \<and> (is_king (b (E_origin b ms q)) \<longrightarrow> is_king (b' q))"
proof (induction b ms rule: E_run.induct)
  case (1 b)
  then show ?case by simp
next
  case (2 b m ms)
  from "2.prems"(1) obtain b1 where a: "apply_move b m = Inr b1" and r: "E_run b1 ms = Inr b'"
    by (auto split: sum.splits)
  define q1 where "q1 = E_origin b1 ms q"
  from "2.IH"[OF a r "2.prems"(2)] have ih: "b1 q1 \<noteq> EMPTY" "piece_owner (b1 q1) = piece_owner (b' q)"
    "is_king (b1 q1) \<longrightarrow> is_king (b' q)" by (simp_all add: q1_def)
  have o: "E_origin b (m # ms) q = (if q1 = final_square m then source_square m else q1)"
    using a by (simp add: q1_def Let_def)
  have src: "b (source_square m) \<noteq> EMPTY"
    using apply_move_origin[OF a] by (rule conjunct1)
  have st: "if q1 = final_square m then b1 q1 = promote (b (source_square m)) (fst (last m))
             else b1 q1 = EMPTY \<or> b1 q1 = b q1"
    using apply_move_origin[OF a, THEN conjunct2] by (rule spec)
  show ?case
  proof (cases "q1 = final_square m")
    case True
    then have "b1 q1 = promote (b (source_square m)) (fst (last m))" using st by simp
    then show ?thesis using ih o True src promote_rank[of "b (source_square m)" "fst (last m)"] by simp
  next
    case False
    then have "b1 q1 = b q1" using st ih(1) by simp
    then show ?thesis using ih o False by simp
  qed
qed

text \<open>
  C6. After any sequence of \<open>move_piece\<close> calls, from any game, the piece on a square is
  the piece of its origin square with the same colour, and it is a king if the piece of
  the origin was one; the same holds for any sequence of \<open>apply_move\<close> calls of the
  engine. A king is never turned back into a man.
\<close>

theorem king_never_demoted:
  "(run_moves g ms = Inr g' \<and> G_get (board g') r c = Some p'
      \<longrightarrow> (\<exists>p. G_get (board g) (fst (origin g ms (r, c))) (snd (origin g ms (r, c))) = Some p
             \<and> color p = color p' \<and> (king p \<longrightarrow> king p')))
   \<and> (E_run b es = Inr b' \<and> b' q \<noteq> EMPTY
      \<longrightarrow> b (E_origin b es q) \<noteq> EMPTY \<and> piece_owner (b (E_origin b es q)) = piece_owner (b' q)
          \<and> (is_king (b (E_origin b es q)) \<longrightarrow> is_king (b' q)))"
  using run_moves_origin[of g ms g' r c p'] E_run_origin[of b es b' q] by blast

definition promotion_game :: game where
  "promotion_game = \<lparr>board = G_board_of [((6, 1), man ''RED''), ((3, 4), man ''BLACK'')],
                      turn = ''RED'', winner = None\<rparr>"

definition promotion_moves :: "(pos \<times> pos) list" where
  "promotion_moves = [((6, 1), (7, 0)), ((3, 4), (2, 3)), ((7, 0), (6, 1))]"

definition promotion_board :: E_board where
  "promotion_board = E_board_of [((1, 2), RED)]"

definition promotion_paths :: "pos list list" where
  "promotion_paths = [[(1, 2), (0, 1)], [(0, 1), (1, 0)]]"

text \<open>
  C6 on a RED man that is kinged on row 7 and steps back, and on a RED man of the engine
  that is kinged on row 0 and steps back.
\<close>

theorem king_never_demoted_witness:
  "(\<exists>g'. run_moves promotion_game promotion_moves = Inr g'
        \<and> G_get (board g') 6 1 = Some \<lparr>color = ''RED'', king = True\<rparr>)
   \<and> origin promotion_game promotion_moves (6, 1) = (6, 1)
   \<and> G_get (board promotion_game) 6 1 = Some \<lparr>color = ''RED'', king = False\<rparr>
   \<and> (\<exists>b'. E_run promotion_board promotion_paths = Inr b' \<and> b' (1, 0) = RED_KING)
   \<and> E_origin promotion_board promotion_paths (1, 0) = (1, 2)
   \<and> promotion_board (1, 2) = RED"
proof -
  have "case run_moves promotion_game promotion_moves of
          Inl x \<Rightarrow> False
        | Inr g' \<Rightarrow> G_get (board g') 6 1 = Some \<lparr>color = ''RED'', king = True\<rparr>"
    by code_simp
  then obtain g' where g: "run_moves promotion_game promotion_moves = Inr g'"
    "G_get (board g') 6 1 = Some \<lparr>color = ''RED'', king = True\<rparr>"
    by (cases "run_moves promotion_game promotion_moves") auto
  have "case E_run promotion_board promotion_paths of Inl x \<Rightarrow> False | Inr b' \<Rightarrow> b' (1, 0) = RED_KING"
    by code_simp
  then obtain b' where b: "E_run promotion_board promotion_paths = Inr b'" "b' (1, 0) = RED_KING"
    by (cases "E_run promotion_board promotion_paths") auto
  have o: "origin promotion_game promotion_moves (6, 1) = (6, 1)"
    "E_origin promotion_board promotion_paths (1, 0) = (1, 2)"
    "G_get (board promotion_game) 6 1 = Some \<lparr>color = ''RED'', king = False\<rparr>"
    "promotion_board (1, 2) = RED"
    by code_simp+
  from king_never_demoted[of promotion_game promotion_moves g' 6 1 "\<lparr>color = ''RED'', king = True\<rparr>"
      promotion_board promotion_paths b' "(1, 0)"] g b o
  show ?thesis by auto
qed

section \<open>Forced continuation\<close>

text \<open>
  A RED man on (5, 0) that captures to (7, 2), is kinged there and has a further capture
  over (6, 3); a second RED man on (0, 1).
\<close>

definition continuation_game :: game where
  "continuation_game =
     \<lparr>board = G_board_of [((5, 0), man ''RED''), ((6, 1), man ''BLACK''), ((6, 3), man ''BLACK''),
                            ((0, 1), man ''RED'')],
      turn = ''RED'', winner = None\<rparr>"

text \<open>
  C2 as stated fails: RED captures from (5, 0) to (7, 2), is kinged and has a further
  capture there, so the turn stays with RED; \<open>move_piece\<close> then accepts the move of the
  other RED man from (0, 1) to (1, 0) and passes the turn.
\<close>

theorem move_piece_other_square_counterexample:
  "(case move_piece continuation_game (5, 0) (7, 2) of
      Inr (Applied (Some pos), g1) \<Rightarrow>
        pos = (7, 2) \<and> turn g1 = ''RED''
        \<and> get_valid_moves (board g1) 7 2 = Inr [((5, 4), [(6, 3)])]
        \<and> (case move_piece g1 (0, 1) (1, 0) of
               Inr (Applied None, g2) \<Rightarrow>
                 turn g2 = ''BLACK'' \<and> G_get (board g2) 0 1 = None
                 \<and> G_get (board g2) 1 0 = Some \<lparr>color = ''RED'', king = False\<rparr>
             | _ \<Rightarrow> False)
    | _ \<Rightarrow> False)"
  by code_simp

text \<open>
  C2, amended. When an applied capture lands on a square from which the resulting board
  offers a further capture, \<open>move_piece\<close> reports the continuation at that square and
  leaves the turn unchanged. \<open>move_piece\<close> keeps no record of a pending continuation:
  in every game state it applies a move from any square that holds a piece of the side to
  move to any destination that \<open>get_valid_moves\<close> lists for that square.
\<close>

theorem forced_continuation:
  "(move_piece g (sr, sc) (er, ec) = Inr (Applied i, g')
      \<and> get_valid_moves (board g) sr sc = Inr valid \<and> map_of valid (er, ec) = Some captured
      \<and> captured \<noteq> []
      \<and> get_valid_moves (board g') er ec = Inr more_moves \<and> any_values more_moves
      \<longrightarrow> i = Some (er, ec) \<and> turn g' = turn g)
   \<and> (G_get (board g) sr sc = Some p \<and> color p = turn g
        \<and> get_valid_moves (board g) sr sc = Inr valid \<and> map_of valid (er, ec) = Some captured
      \<longrightarrow> (\<exists>j g''. move_piece g (sr, sc) (er, ec) = Inr (Applied j, g'')))"
proof (rule conjI; rule impI)
  assume a: "move_piece g (sr, sc) (er, ec) = Inr (Applied i, g')
      \<and> get_valid_moves (board g) sr sc = Inr valid \<and> map_of valid (er, ec) = Some captured
      \<and> captured \<noteq> []
      \<and> get_valid_moves (board g') er ec = Inr more_moves \<and> any_values more_moves"
  then have m: "move_piece g (sr, sc) (er, ec) = Inr (Applied i, g')"
    and v: "get_valid_moves (board g) sr sc = Inr valid" "map_of valid (er, ec) = Some captured"
    and c: "captured \<noteq> []"
    and mo: "get_valid_moves (board g') er ec = Inr more_moves" "any_values more_moves"
    by auto
  show "i = Some (er, ec) \<and> turn g' = turn g"
  proof (cases rule: move_piece_cases[of g sr sc er ec])
    case (rejected msg)
    then show ?thesis using m by simp
  next
    case (applied p valid' captured' more')
    have eq: "valid' = valid" "captured' = captured" using applied(3,4) v by auto
    have bd: "board g' = moved_board (board g) p sr sc er ec captured"
      using move_piece_applied_board[OF applied(1,2) v m] by simp
    have "more' = more_moves" using applied(5) mo(1) by (simp add: eq bd)
    then show ?thesis using move_piece_applied[OF applied] m c mo(2) by (simp add: eq)
  qed
next
  assume a: "G_get (board g) sr sc = Some p \<and> color p = turn g
        \<and> get_valid_moves (board g) sr sc = Inr valid \<and> map_of valid (er, ec) = Some captured"
  then have p: "G_get (board g) sr sc = Some p" "color p = turn g"
    and v: "get_valid_moves (board g) sr sc = Inr valid" "map_of valid (er, ec) = Some captured"
    by auto
  obtain more_moves where
    mo: "get_valid_moves (moved_board (board g) p sr sc er ec captured) er ec = Inr more_moves"
    using get_valid_moves_no_exn by blast
  show "\<exists>j g''. move_piece g (sr, sc) (er, ec) = Inr (Applied j, g'')"
    using move_piece_applied[OF p v mo] by (cases "captured \<noteq> [] \<and> any_values more_moves") simp_all
qed

text \<open>
  C2, amended, on the position above: the capture from (5, 0), and the move of the man
  on (0, 1).
\<close>

theorem forced_continuation_witness:
  "(\<exists>g'. move_piece continuation_game (5, 0) (7, 2) = Inr (Applied (Some (7, 2)), g')
         \<and> turn g' = turn continuation_game)
   \<and> (\<exists>j g''. move_piece continuation_game (0, 1) (1, 0) = Inr (Applied j, g''))"
proof -
  have "case move_piece continuation_game (5, 0) (7, 2) of
          Inr (Applied i, g') \<Rightarrow> get_valid_moves (board g') 7 2 = Inr [((5, 4), [(6, 3)])]
        | _ \<Rightarrow> False"
    by code_simp
  note e = this
  obtain res g' where rg: "move_piece continuation_game (5, 0) (7, 2) = Inr (res, g')"
    using e by (cases "move_piece continuation_game (5, 0) (7, 2)") auto
  obtain i where i: "res = Applied i" using e rg by (cases res) auto
  have m: "move_piece continuation_game (5, 0) (7, 2) = Inr (Applied i, g')"
    and mo: "get_valid_moves (board g') 7 2 = Inr [((5, 4), [(6, 3)])]"
    using e rg i by auto
  have v: "get_valid_moves (board continuation_game) 5 0 = Inr [((7, 2), [(6, 1)])]" by code_simp
  have w: "get_valid_moves (board continuation_game) 0 1 = Inr [((1, 0), []), ((1, 2), [])]"
    by code_simp
  have q: "G_get (board continuation_game) 0 1 = Some (man ''RED'')"
    "color (man ''RED'') = turn continuation_game"
    by code_simp+
  from forced_continuation[of continuation_game 5 0 7 2 i g' "[((7, 2), [(6, 1)])]" "[(6, 1)]"
      "[((5, 4), [(6, 3)])]"] m mo v
  have 1: "\<exists>g'. move_piece continuation_game (5, 0) (7, 2) = Inr (Applied (Some (7, 2)), g')
         \<and> turn g' = turn continuation_game"
    by (auto simp: any_values_def)
  from forced_continuation[of continuation_game 0 1 1 0 i g' "[((1, 0), []), ((1, 2), [])]" "[]"
      "[]" "man ''RED''"] q w
  have 2: "\<exists>j g''. move_piece continuation_game (0, 1) (1, 0) = Inr (Applied j, g'')"
    by simp
  from 1 2 show ?thesis by blast
qed

section \<open>Piece counts after a capture round a ring\<close>

text \<open>
  The number of pieces of one colour on the 64 squares.
\<close>

definition G_count_color :: "G_board \<Rightarrow> string \<Rightarrow> nat" where
  "G_count_color b col =
     length (filter (\<lambda>(r, c). case G_get b r c of None \<Rightarrow> False | Some p \<Rightarrow> color p = col) all_squares)"

definition E_count_owner :: "E_board \<Rightarrow> Player \<Rightarrow> nat" where
  "E_count_owner b player = length (filter (\<lambda>q. piece_owner (b q) = Some player) all_squares)"

text \<open>
  A RED king on (3, 2) inside a ring of four BLACK men, RED to move, in \<open>game_logic\<close>
  and the mirrored position of the engine.
\<close>

definition ring :: game where
  "ring = \<lparr>board = G_board_of [((3, 2), \<lparr>color = ''RED'', king = True\<rparr>), ((4, 1), man ''BLACK''),
                                 ((6, 1), man ''BLACK''), ((6, 3), man ''BLACK''), ((4, 3), man ''BLACK'')],
            turn = ''RED'', winner = None\<rparr>"

definition E_ring :: E_board where
  "E_ring = E_board_of [((3, 2), RED_KING), ((4, 1), BLACK), ((6, 1), BLACK), ((6, 3), BLACK),
                        ((4, 3), BLACK)]"

text \<open>
  C4 fails in \<open>move_piece\<close>. The capture round the ring ends on the origin square, and
  \<open>get_valid_moves\<close> offers it. \<open>move_piece\<close> puts the piece on the destination and
  then removes the origin, the same square: the king is gone, RED has no piece left where
  it had one. \<open>apply_move\<close> clears the origin first and places the piece last: on the
  same path RED keeps its king.
\<close>

theorem move_piece_ring_loses_mover:
  "get_valid_moves (board ring) 3 2 = Inr [((3, 2), [(4, 1), (6, 1), (6, 3), (4, 3)])]
   \<and> G_count_color (board ring) ''RED'' = 1 \<and> G_count_color (board ring) ''BLACK'' = 4
   \<and> (case move_piece ring (3, 2) (3, 2) of
         Inr (Applied None, g') \<Rightarrow>
           G_get (board g') 3 2 = None
           \<and> G_count_color (board g') ''RED'' = 0 \<and> G_count_color (board g') ''BLACK'' = 0
       | _ \<Rightarrow> False)
   \<and> find_captures_from E_ring 3 2
       = Inr [[(3, 2), (5, 0), (7, 2), (5, 4), (3, 2)], [(3, 2), (5, 4), (7, 2), (5, 0), (3, 2)]]
   \<and> (case apply_move E_ring [(3, 2), (5, 0), (7, 2), (5, 4), (3, 2)] of
         Inr b' \<Rightarrow> b' (3, 2) = RED_KING \<and> E_count_owner b' Player_RED = 1
                     \<and> E_count_owner b' Player_BLACK = 0
       | _ \<Rightarrow> False)"
  by code_simp

section \<open>The capture searches leave the caller's board unchanged\<close>

text \<open>
  Boards are objects here. A store is the list of the \<open>Board\<close> objects created so far,
  and the address of an object is its index. Each board owns its grid: \<open>__init__\<close> builds
  fresh lists and \<open>clone\<close> copies with \<open>deepcopy\<close>, so no two boards share a row or a
  piece, and a cell of the store holds the grid of its board. \<open>clone_h\<close> allocates: the
  copy is appended and its address returned. \<open>get\<close>, \<open>set\<close> and \<open>remove\<close> take the address
  of the board they are called on, and a write changes that cell of the store only.

  The searches below are \<open>G_dfs\<close> and \<open>E_dfs\<close> again, statement by statement, on the
  store, which they return whether they raise or not. Their first argument is the number of
  nested calls the interpreter still allows: a call beyond it raises RecursionError.
\<close>

subsection \<open>\<open>get_valid_moves\<close> on the store\<close>

definition clone_h :: "'b list \<Rightarrow> nat \<Rightarrow> 'b list \<times> nat" where
  "clone_h h a = (h @ [h ! a], length h)"

definition G_get_h :: "G_board list \<Rightarrow> nat \<Rightarrow> int \<Rightarrow> int \<Rightarrow> piece option" where
  "G_get_h h a r c = G_get (h ! a) r c"

definition G_set_h :: "G_board list \<Rightarrow> nat \<Rightarrow> int \<Rightarrow> int \<Rightarrow> piece option \<Rightarrow> G_board list" where
  "G_set_h h a r c p = h[a := G_set (h ! a) r c p]"

definition G_remove_h :: "G_board list \<Rightarrow> nat \<Rightarrow> int \<Rightarrow> int \<Rightarrow> G_board list" where
  "G_remove_h h a r c = G_set_h h a r c None"

function G_dfs_h :: "nat \<Rightarrow> G_board list \<Rightarrow> int \<Rightarrow> int \<Rightarrow> nat \<Rightarrow> pos list \<Rightarrow> jumps
      \<Rightarrow> G_board list \<times> (py_exn + (bool \<times> jumps))"
  and G_dfs_loop_h :: "nat \<Rightarrow> G_board list \<Rightarrow> int \<Rightarrow> int \<Rightarrow> nat \<Rightarrow> pos list \<Rightarrow> piece
      \<Rightarrow> (int \<times> int) list \<Rightarrow> bool \<Rightarrow> jumps \<Rightarrow> G_board list \<times> (py_exn + (bool \<times> jumps))"
where
  "G_dfs_h 0 h sr sc board_state captured jumps = (h, Inl RecursionError)"
| "G_dfs_h (Suc depth) h sr sc board_state captured jumps =
     (case G_get_h h board_state sr sc of
        None \<Rightarrow> (h, Inl AttributeError)
      | Some piece \<Rightarrow> G_dfs_loop_h depth h sr sc board_state captured piece (dirs_of piece) False jumps)"
| "G_dfs_loop_h depth h sr sc board_state captured piece [] found jumps = (h, Inr (found, jumps))"
| "G_dfs_loop_h depth h sr sc board_state captured piece ((dr, dc) # ds) found jumps =
     (if \<not> (G_in_bounds (sr + dr) (sc + dc) \<and> G_in_bounds (sr + 2 * dr) (sc + 2 * dc))
      then G_dfs_loop_h depth h sr sc board_state captured piece ds found jumps
      else if G_get_h h board_state (sr + dr) (sc + dc) \<noteq> None
             \<and> color (the (G_get_h h board_state (sr + dr) (sc + dc))) \<noteq> color piece
             \<and> G_get_h h board_state (sr + 2 * dr) (sc + 2 * dc) = None
      then (case clone_h h board_state of (h1, new_board) \<Rightarrow>
             (let h2 = G_set_h h1 new_board (sr + 2 * dr) (sc + 2 * dc) (G_get_h h1 new_board sr sc);
                  h3 = G_remove_h h2 new_board sr sc;
                  h4 = G_remove_h h3 new_board (sr + dr) (sc + dc)
              in case G_dfs_h depth h4 (sr + 2 * dr) (sc + 2 * dc) new_board
                        (captured @ [(sr + dr, sc + dc)]) jumps of
                   (h5, Inl e) \<Rightarrow> (h5, Inl e)
                 | (h5, Inr (has_more, jumps')) \<Rightarrow>
                     G_dfs_loop_h depth h5 sr sc board_state captured piece ds True
                       (if \<not> has_more
                        then setdefault_append jumps' (sr + 2 * dr, sc + 2 * dc)
                               (captured @ [(sr + dr, sc + dc)])
                        else jumps')))
      else G_dfs_loop_h depth h sr sc board_state captured piece ds found jumps)"
  by pat_completeness auto
termination
  by (relation "measures [\<lambda>x. case x of Inl (d, rest) \<Rightarrow> d | Inr (d, rest) \<Rightarrow> d,
                          \<lambda>x. case x of Inl z \<Rightarrow> 0
                               | Inr (d, h, sr, sc, a, cap, p, ds, rest) \<Rightarrow> Suc (length ds)]")
     auto

definition get_valid_moves_h :: "nat \<Rightarrow> G_board list \<Rightarrow> nat \<Rightarrow> int \<Rightarrow> int \<Rightarrow> G_board list \<times> (py_exn + moves)" where
  "get_valid_moves_h depth h self_board r c =
     (case G_get_h h self_board r c of
        None \<Rightarrow> (h, Inr [])
      | Some p \<Rightarrow>
          (let simple = simple_loop (h ! self_board) r c (dirs_of p) [] in
           case clone_h h self_board of (h1, start) \<Rightarrow>
             (case G_dfs_h depth h1 r c start [] [] of
                (h2, Inl e) \<Rightarrow> (h2, Inl e)
              | (h2, Inr (found, jumps)) \<Rightarrow>
                  (h2, if jumps \<noteq> [] then best_per_dest jumps [] else Inr simple))))"

text \<open>
  One iteration of the loop in two derived equations, as for the engine: the three writes
  after \<open>clone\<close> build \<open>G_jump\<close> of the board in a new cell.
\<close>

lemma heap_jump:
  "G_remove_h (G_remove_h (G_set_h (h @ [h ! a]) (length h) lr lc (G_get_h (h @ [h ! a]) (length h) sr sc))
       (length h) sr sc) (length h) mr mc
     = h @ [G_jump (h ! a) sr sc mr mc lr lc]"
  by (simp add: G_set_h_def G_remove_h_def G_get_h_def G_jump_def G_remove_def)

lemma G_dfs_loop_h_skip:
  assumes "\<not> G_can_jump (h ! a) sr sc piece dr dc"
  shows "G_dfs_loop_h depth h sr sc a captured piece ((dr, dc) # ds) found jumps
       = G_dfs_loop_h depth h sr sc a captured piece ds found jumps"
  using assms by (auto simp: G_can_jump_def G_get_h_def)

lemma G_dfs_loop_h_jump:
  assumes "G_can_jump (h ! a) sr sc piece dr dc"
  shows "G_dfs_loop_h depth h sr sc a captured piece ((dr, dc) # ds) found jumps
       = (case G_dfs_h depth (h @ [G_jump (h ! a) sr sc (sr + dr) (sc + dc) (sr + 2 * dr) (sc + 2 * dc)])
                 (sr + 2 * dr) (sc + 2 * dc) (length h) (captured @ [(sr + dr, sc + dc)]) jumps of
            (h5, Inl e) \<Rightarrow> (h5, Inl e)
          | (h5, Inr (has_more, jumps')) \<Rightarrow>
              G_dfs_loop_h depth h5 sr sc a captured piece ds True
                (if \<not> has_more
                 then setdefault_append jumps' (sr + 2 * dr, sc + 2 * dc) (captured @ [(sr + dr, sc + dc)])
                 else jumps'))"
  using assms heap_jump[of h a "sr + 2 * dr" "sc + 2 * dc" sr sc "sr + dr" "sc + dc"]
  by (simp add: G_can_jump_def G_get_h_def clone_h_def Let_def)

lemma G_dfs_loop_skip:
  assumes "\<not> G_can_jump bs sr sc piece dr dc"
  shows "G_dfs_loop sr sc bs captured piece ((dr, dc) # ds) found jumps
       = G_dfs_loop sr sc bs captured piece ds found jumps"
  using assms by (auto simp: G_can_jump_def G_dfs_loop.simps(2))

lemma G_dfs_loop_jump:
  assumes "G_can_jump bs sr sc piece dr dc"
  shows "G_dfs_loop sr sc bs captured piece ((dr, dc) # ds) found jumps
       = (case G_dfs (sr + 2 * dr) (sc + 2 * dc)
                 (G_jump bs sr sc (sr + dr) (sc + dc) (sr + 2 * dr) (sc + 2 * dc))
                 (captured @ [(sr + dr, sc + dc)]) jumps of
            Inl e \<Rightarrow> Inl e
          | Inr (has_more, jumps') \<Rightarrow>
              G_dfs_loop sr sc bs captured piece ds True
                (if \<not> has_more
                 then setdefault_append jumps' (sr + 2 * dr, sc + 2 * dc) (captured @ [(sr + dr, sc + dc)])
                 else jumps'))"
  using assms by (simp add: G_can_jump_def G_dfs_loop.simps(2))

declare G_dfs_loop_h.simps(2) [simp del]
declare G_dfs.simps [simp del]
declare G_dfs_loop.simps(2) [simp del]

text \<open>
  The store after the search is the store before it, followed by the boards the search
  allocated: by induction on the depth, and inside on the directions left.
\<close>

lemma G_dfs_loop_h_frame:
  assumes dfs: "\<And>h sr sc a captured jumps. \<exists>new. fst (G_dfs_h depth h sr sc a captured jumps) = h @ new"
  shows "\<exists>new. fst (G_dfs_loop_h depth h sr sc a captured piece ds found jumps) = h @ new"
proof (induction ds arbitrary: h found jumps)
  case Nil
  show ?case by simp
next
  case (Cons d ds)
  obtain dr dc where d: "d = (dr, dc)" by (cases d)
  show ?case
  proof (cases "G_can_jump (h ! a) sr sc piece dr dc")
    case False
    then show ?thesis using Cons.IH[of h found jumps] by (simp add: d G_dfs_loop_h_skip)
  next
    case True
    define h4 where "h4 = h @ [G_jump (h ! a) sr sc (sr + dr) (sc + dc) (sr + 2 * dr) (sc + 2 * dc)]"
    obtain h5 res where r: "G_dfs_h depth h4 (sr + 2 * dr) (sc + 2 * dc) (length h)
        (captured @ [(sr + dr, sc + dc)]) jumps = (h5, res)" by (cases "G_dfs_h depth h4 (sr + 2 * dr) (sc + 2 * dc) (length h)
        (captured @ [(sr + dr, sc + dc)]) jumps")
    from dfs[of h4 "sr + 2 * dr" "sc + 2 * dc" "length h" "captured @ [(sr + dr, sc + dc)]" jumps] r
    obtain new1 where h5: "h5 = h4 @ new1" by auto
    show ?thesis
    proof (cases res)
      case (Inl e)
      then have "fst (G_dfs_loop_h depth h sr sc a captured piece (d # ds) found jumps) = h5"
        using r by (simp add: d G_dfs_loop_h_jump[OF True] h4_def)
      then show ?thesis by (simp add: h5 h4_def)
    next
      case (Inr x)
      obtain has_more jumps1 where x: "x = (has_more, jumps1)" by (cases x)
      define js2 where "js2 = (if \<not> has_more
                 then setdefault_append jumps1 (sr + 2 * dr, sc + 2 * dc) (captured @ [(sr + dr, sc + dc)])
                 else jumps1)"
      have "G_dfs_loop_h depth h sr sc a captured piece (d # ds) found jumps
          = G_dfs_loop_h depth h5 sr sc a captured piece ds True js2"
        using r Inr x by (simp add: d G_dfs_loop_h_jump[OF True] h4_def js2_def)
      moreover from Cons.IH[of h5 True js2] obtain new2 where
        "fst (G_dfs_loop_h depth h5 sr sc a captured piece ds True js2) = h5 @ new2" by blast
      ultimately show ?thesis by (simp add: h5 h4_def)
    qed
  qed
qed

lemma G_dfs_h_frame: "\<exists>new. fst (G_dfs_h depth h sr sc a captured jumps) = h @ new"
proof (induction depth arbitrary: h sr sc a captured jumps)
  case 0
  show ?case by simp
next
  case (Suc depth)
  show ?case
  proof (cases "G_get_h h a sr sc")
    case None
    then show ?thesis by simp
  next
    case (Some piece)
    then show ?thesis
      using G_dfs_loop_h_frame[of depth h sr sc a captured piece "dirs_of piece" False jumps, OF Suc.IH]
      by simp
  qed
qed

text \<open>
  With more calls allowed than the board has pieces, the search on the store computes what
  \<open>G_dfs\<close> computes on the board in the cell.
\<close>

lemma G_dfs_h_refines:
  "a < length h \<Longrightarrow> h ! a = bs \<Longrightarrow> G_count bs < depth
     \<Longrightarrow> snd (G_dfs_h depth h sr sc a captured jumps) = G_dfs sr sc bs captured jumps"
  "a < length h \<Longrightarrow> h ! a = bs \<Longrightarrow> G_count bs \<le> depth
     \<Longrightarrow> snd (G_dfs_loop_h depth h sr sc a captured piece ds found jumps)
           = G_dfs_loop sr sc bs captured piece ds found jumps"
proof (induction sr sc bs captured jumps and sr sc bs captured piece ds found jumps
    arbitrary: depth h a and depth h a rule: G_dfs_G_dfs_loop.induct)
  case (1 sr sc bs captured jumps)
  from "1.prems"(3) obtain d where d: "depth = Suc d" by (cases depth) auto
  show ?case
  proof (cases "G_get bs sr sc")
    case None
    then show ?thesis using d "1.prems"(2) by (simp add: G_get_h_def G_dfs.simps)
  next
    case (Some piece)
    have "G_count bs \<le> d" using "1.prems"(3) d by simp
    from "1.IH"[OF Some "1.prems"(1,2) this] show ?thesis
      using d Some "1.prems"(2) by (simp add: G_get_h_def G_dfs.simps)
  qed
next
  case (2 sr sc bs captured piece found jumps)
  show ?case by simp
next
  case (3 sr sc bs captured piece dr dc ds found jumps)
  note al = "3.prems"(1) and hb = "3.prems"(2) and cnt = "3.prems"(3)
  show ?case
  proof (cases "G_can_jump bs sr sc piece dr dc")
    case False
    have "snd (G_dfs_loop_h depth h sr sc a captured piece ds found jumps)
        = G_dfs_loop sr sc bs captured piece ds found jumps"
    proof (cases "G_in_bounds (sr + dr) (sc + dc) \<and> G_in_bounds (sr + 2 * dr) (sc + 2 * dc)")
      case nb: False
      from "3.IH"(1)[OF nb al hb cnt] show ?thesis .
    next
      case inb: True
      with False have nj: "\<not> (G_get bs (sr + dr) (sc + dc) \<noteq> None
             \<and> color (the (G_get bs (sr + dr) (sc + dc))) \<noteq> color piece
             \<and> G_get bs (sr + 2 * dr) (sc + 2 * dc) = None)"
        by (auto simp: G_can_jump_def)
      from "3.IH"(4)[OF _ nj al hb cnt] inb show ?thesis by simp
    qed
    then show ?thesis using False hb by (simp add: G_dfs_loop_h_skip G_dfs_loop_skip)
  next
    case True
    then have inb: "\<not> \<not> (G_in_bounds (sr + dr) (sc + dc) \<and> G_in_bounds (sr + 2 * dr) (sc + 2 * dc))"
      and jump: "G_get bs (sr + dr) (sc + dc) \<noteq> None
             \<and> color (the (G_get bs (sr + dr) (sc + dc))) \<noteq> color piece
             \<and> G_get bs (sr + 2 * dr) (sc + 2 * dc) = None"
      by (auto simp: G_can_jump_def)
    define nbs where "nbs = G_jump bs sr sc (sr + dr) (sc + dc) (sr + 2 * dr) (sc + 2 * dc)"
    define h4 where "h4 = h @ [nbs]"
    have c4: "G_count nbs < depth"
      using G_jump_count[of sr dr sc dc bs] inb jump cnt by (simp add: nbs_def)
    have h4a: "length h < length h4" "h4 ! length h = nbs" by (simp_all add: h4_def)
    obtain h5 res where r: "G_dfs_h depth h4 (sr + 2 * dr) (sc + 2 * dc) (length h)
        (captured @ [(sr + dr, sc + dc)]) jumps = (h5, res)"
      by (cases "G_dfs_h depth h4 (sr + 2 * dr) (sc + 2 * dc) (length h)
        (captured @ [(sr + dr, sc + dc)]) jumps")
    have res: "res = G_dfs (sr + 2 * dr) (sc + 2 * dc) nbs (captured @ [(sr + dr, sc + dc)]) jumps"
      using "3.IH"(2)[OF inb jump h4a(1) h4a(2)[unfolded nbs_def] c4[unfolded nbs_def]] r
      by (simp add: nbs_def)
    from G_dfs_h_frame[of depth h4 "sr + 2 * dr" "sc + 2 * dc" "length h" "captured @ [(sr + dr, sc + dc)]" jumps] r
    obtain new1 where h5: "h5 = h4 @ new1" by auto
    have h5a: "a < length h5" "h5 ! a = bs" using al hb by (simp_all add: h5 h4_def nth_append)
    have step: "G_dfs_loop_h depth h sr sc a captured piece ((dr, dc) # ds) found jumps
       = (case (h5, res) of
            (h5, Inl e) \<Rightarrow> (h5, Inl e)
          | (h5, Inr (has_more, jumps')) \<Rightarrow>
              G_dfs_loop_h depth h5 sr sc a captured piece ds True
                (if \<not> has_more
                 then setdefault_append jumps' (sr + 2 * dr, sc + 2 * dc) (captured @ [(sr + dr, sc + dc)])
                 else jumps'))"
      using G_dfs_loop_h_jump[of h a sr sc piece dr dc depth captured ds found jumps] True hb r
      by (simp add: h4_def nbs_def)
    show ?thesis
    proof (cases res)
      case (Inl e)
      then show ?thesis using step res True by (simp add: G_dfs_loop_jump nbs_def)
    next
      case (Inr x)
      obtain has_more jumps1 where x: "x = (has_more, jumps1)" by (cases x)
      have rec: "G_dfs (sr + 2 * dr) (sc + 2 * dc)
                 (G_jump bs sr sc (sr + dr) (sc + dc) (sr + 2 * dr) (sc + 2 * dc))
                 (captured @ [(sr + dr, sc + dc)]) jumps = Inr (has_more, jumps1)"
        using res Inr x by (simp add: nbs_def)
      from "3.IH"(3)[OF inb jump rec refl h5a cnt]
      show ?thesis using step Inr x rec True by (simp add: G_dfs_loop_jump)
    qed
  qed
qed

lemma get_valid_moves_h_frame: "\<exists>new. fst (get_valid_moves_h depth h a r c) = h @ new"
proof (cases "G_get_h h a r c")
  case None
  then show ?thesis by (simp add: get_valid_moves_h_def)
next
  case (Some p)
  obtain h2 res where r: "G_dfs_h depth (h @ [h ! a]) r c (length h) [] [] = (h2, res)"
    by (cases "G_dfs_h depth (h @ [h ! a]) r c (length h) [] []")
  from G_dfs_h_frame[of depth "h @ [h ! a]" r c "length h" "[]" "[]"] r
  obtain new where "h2 = (h @ [h ! a]) @ new" by auto
  then have "h2 = h @ ([h ! a] @ new)" by simp
  moreover have "fst (get_valid_moves_h depth h a r c) = h2"
    using Some r by (cases res) (auto simp: get_valid_moves_h_def clone_h_def Let_def)
  ultimately show ?thesis by blast
qed

lemma get_valid_moves_h_refines:
  assumes "a < length h" "G_count (h ! a) < depth"
  shows "snd (get_valid_moves_h depth h a r c) = get_valid_moves (h ! a) r c"
proof (cases "G_get (h ! a) r c")
  case None
  then show ?thesis by (simp add: get_valid_moves_h_def get_valid_moves_def G_get_h_def)
next
  case (Some p)
  obtain h2 res where r: "G_dfs_h depth (h @ [h ! a]) r c (length h) [] [] = (h2, res)"
    by (cases "G_dfs_h depth (h @ [h ! a]) r c (length h) [] []")
  have "res = G_dfs r c (h ! a) [] []"
    using G_dfs_h_refines(1)[of "length h" "h @ [h ! a]" "h ! a" depth r c "[]" "[]"] assms(2) r
    by simp
  then show ?thesis using Some r
    by (cases res)
       (auto simp: get_valid_moves_h_def get_valid_moves_def capture_jumps_def G_clone_def
          clone_h_def G_get_h_def Let_def split: sum.splits)
qed

subsection \<open>\<open>_find_captures_from\<close> on the store\<close>

definition E_get_h :: "E_board list \<Rightarrow> nat \<Rightarrow> int \<Rightarrow> int \<Rightarrow> py_exn + Piece" where
  "E_get_h h a r c = E_get (h ! a) r c"

definition E_set_h :: "E_board list \<Rightarrow> nat \<Rightarrow> int \<Rightarrow> int \<Rightarrow> Piece \<Rightarrow> py_exn + E_board list" where
  "E_set_h h a r c val = (case E_set (h ! a) r c val of Inl e \<Rightarrow> Inl e | Inr b' \<Rightarrow> Inr (h[a := b']))"

function E_dfs_h :: "nat \<Rightarrow> Player option \<Rightarrow> E_board list \<Rightarrow> nat \<Rightarrow> int \<Rightarrow> int \<Rightarrow> pos list \<Rightarrow> paths
      \<Rightarrow> E_board list \<times> (py_exn + paths)"
  and E_dfs_loop_h :: "nat \<Rightarrow> Player option \<Rightarrow> E_board list \<Rightarrow> nat \<Rightarrow> int \<Rightarrow> int \<Rightarrow> pos list \<Rightarrow> Piece
      \<Rightarrow> (int \<times> int) list \<Rightarrow> bool \<Rightarrow> paths \<Rightarrow> E_board list \<times> (py_exn + (bool \<times> paths))"
where
  "E_dfs_h 0 owner h board_snapshot cur_r cur_c path results = (h, Inl RecursionError)"
| "E_dfs_h (Suc depth) owner h board_snapshot cur_r cur_c path results =
     (case E_get_h h board_snapshot cur_r cur_c of
        Inl e \<Rightarrow> (h, Inl e)
      | Inr p \<Rightarrow>
          (case E_dfs_loop_h depth owner h board_snapshot cur_r cur_c path p directions False results of
             (h', Inl e) \<Rightarrow> (h', Inl e)
           | (h', Inr (moved, results')) \<Rightarrow>
               (h', Inr (if \<not> moved \<and> length path > 1 then results' @ [path] else results'))))"
| "E_dfs_loop_h depth owner h board_snapshot cur_r cur_c path p [] moved results =
     (h, Inr (moved, results))"
| "E_dfs_loop_h depth owner h board_snapshot cur_r cur_c path p ((dr, dc) # ds) moved results =
     (if \<not> (E_in_bounds (cur_r + dr) (cur_c + dc) \<and> E_in_bounds (cur_r + 2 * dr) (cur_c + 2 * dc))
      then E_dfs_loop_h depth owner h board_snapshot cur_r cur_c path p ds moved results
      else
       (case E_get_h h board_snapshot (cur_r + dr) (cur_c + dc) of
          Inl e \<Rightarrow> (h, Inl e)
        | Inr mid_piece \<Rightarrow>
       (case E_get_h h board_snapshot (cur_r + 2 * dr) (cur_c + 2 * dc) of
          Inl e \<Rightarrow> (h, Inl e)
        | Inr land_piece \<Rightarrow>
          if land_piece \<noteq> EMPTY
          then E_dfs_loop_h depth owner h board_snapshot cur_r cur_c path p ds moved results
          else if piece_owner mid_piece = None \<or> piece_owner mid_piece = owner
          then E_dfs_loop_h depth owner h board_snapshot cur_r cur_c path p ds moved results
          else if \<not> is_king p \<and> ((owner = Some Player_RED \<and> dr > 0) \<or> (owner = Some Player_BLACK \<and> dr < 0))
          then E_dfs_loop_h depth owner h board_snapshot cur_r cur_c path p ds moved results
          else
           (case clone_h h board_snapshot of (h1, new_snapshot) \<Rightarrow>
           (case E_set_h h1 new_snapshot (cur_r + dr) (cur_c + dc) EMPTY of
              Inl e \<Rightarrow> (h1, Inl e)
            | Inr h2 \<Rightarrow>
           (case E_set_h h2 new_snapshot cur_r cur_c EMPTY of
              Inl e \<Rightarrow> (h2, Inl e)
            | Inr h3 \<Rightarrow>
           (case E_set_h h3 new_snapshot (cur_r + 2 * dr) (cur_c + 2 * dc) p of
              Inl e \<Rightarrow> (h3, Inl e)
            | Inr h4 \<Rightarrow>
           (case E_dfs_h depth owner h4 new_snapshot (cur_r + 2 * dr) (cur_c + 2 * dc)
                   (path @ [(cur_r + 2 * dr, cur_c + 2 * dc)]) results of
              (h5, Inl e) \<Rightarrow> (h5, Inl e)
            | (h5, Inr results') \<Rightarrow>
                E_dfs_loop_h depth owner h5 board_snapshot cur_r cur_c path p ds True results'))))))))"
  by pat_completeness auto
termination
  by (relation "measures [\<lambda>x. case x of Inl (d, rest) \<Rightarrow> d | Inr (d, rest) \<Rightarrow> d,
                          \<lambda>x. case x of Inl z \<Rightarrow> 0
                               | Inr (d, ow, h, a, r, c, pa, p, ds, rest) \<Rightarrow> Suc (length ds)]")
     auto

definition find_captures_from_h :: "nat \<Rightarrow> E_board list \<Rightarrow> nat \<Rightarrow> int \<Rightarrow> int \<Rightarrow> E_board list \<times> (py_exn + paths)" where
  "find_captures_from_h depth h self r c =
     (case E_get_h h self r c of
        Inl e \<Rightarrow> (h, Inl e)
      | Inr piece \<Rightarrow>
          if piece = EMPTY then (h, Inr [])
          else (case clone_h h self of (h1, start) \<Rightarrow>
                  E_dfs_h depth (piece_owner piece) h1 start r c [(r, c)] []))"

lemma E_dfs_loop_h_skip:
  assumes "\<not> E_can_jump owner (h ! a) cur_r cur_c p dr dc"
  shows "E_dfs_loop_h depth owner h a cur_r cur_c path p ((dr, dc) # ds) moved results
       = E_dfs_loop_h depth owner h a cur_r cur_c path p ds moved results"
proof (cases "E_in_bounds (cur_r + dr) (cur_c + dc) \<and> E_in_bounds (cur_r + 2 * dr) (cur_c + 2 * dc)")
  case False
  then show ?thesis by simp
next
  case True
  then have "E_get_h h a (cur_r + dr) (cur_c + dc) = Inr ((h ! a) (cur_r + dr, cur_c + dc))"
    "E_get_h h a (cur_r + 2 * dr) (cur_c + 2 * dc) = Inr ((h ! a) (cur_r + 2 * dr, cur_c + 2 * dc))"
    by (simp_all add: E_get_in_bounds E_get_h_def)
  then show ?thesis using assms True by (auto simp: E_can_jump_def)
qed

lemma E_dfs_loop_h_jump:
  assumes "E_can_jump owner (h ! a) cur_r cur_c p dr dc"
  shows "E_dfs_loop_h depth owner h a cur_r cur_c path p ((dr, dc) # ds) moved results
       = (case E_jump (h ! a) cur_r cur_c dr dc p of
            Inl e \<Rightarrow> (h @ [(h ! a)((cur_r + dr, cur_c + dc) := EMPTY)], Inl e)
          | Inr new_snapshot \<Rightarrow>
              (case E_dfs_h depth owner (h @ [new_snapshot]) (length h) (cur_r + 2 * dr) (cur_c + 2 * dc)
                      (path @ [(cur_r + 2 * dr, cur_c + 2 * dc)]) results of
                 (h5, Inl e) \<Rightarrow> (h5, Inl e)
               | (h5, Inr results') \<Rightarrow> E_dfs_loop_h depth owner h5 a cur_r cur_c path p ds True results'))"
proof -
  from assms have inb: "E_in_bounds (cur_r + dr) (cur_c + dc)" "E_in_bounds (cur_r + 2 * dr) (cur_c + 2 * dc)"
    by (simp_all add: E_can_jump_def)
  then have g: "E_get_h h a (cur_r + dr) (cur_c + dc) = Inr ((h ! a) (cur_r + dr, cur_c + dc))"
    "E_get_h h a (cur_r + 2 * dr) (cur_c + 2 * dc) = Inr ((h ! a) (cur_r + 2 * dr, cur_c + 2 * dc))"
    by (simp_all add: E_get_in_bounds E_get_h_def)
  have c: "(h ! a) (cur_r + 2 * dr, cur_c + 2 * dc) = EMPTY"
    "piece_owner ((h ! a) (cur_r + dr, cur_c + dc)) \<noteq> None"
    "piece_owner ((h ! a) (cur_r + dr, cur_c + dc)) \<noteq> owner"
    "\<not> (\<not> is_king p \<and> ((owner = Some Player_RED \<and> dr > 0) \<or> (owner = Some Player_BLACK \<and> dr < 0)))"
    using assms by (simp_all add: E_can_jump_def)
  define s1 where "s1 = (h ! a)((cur_r + dr, cur_c + dc) := EMPTY)"
  have e1: "E_set_h (h @ [h ! a]) (length h) (cur_r + dr) (cur_c + dc) EMPTY = Inr (h @ [s1])"
    using inb by (simp add: E_set_h_def E_set_in_bounds s1_def)
  have e2: "E_set_h (h @ [s1]) (length h) cur_r cur_c EMPTY
      = (case E_set s1 cur_r cur_c EMPTY of Inl e \<Rightarrow> Inl e | Inr s2 \<Rightarrow> Inr (h @ [s2]))"
    by (simp add: E_set_h_def split: sum.splits)
  have e3: "E_set_h (h @ [s2]) (length h) (cur_r + 2 * dr) (cur_c + 2 * dc) p
      = Inr (h @ [s2((cur_r + 2 * dr, cur_c + 2 * dc) := p)])" for s2
    using inb by (simp add: E_set_h_def E_set_in_bounds)
  have j: "E_jump (h ! a) cur_r cur_c dr dc p
      = (case E_set s1 cur_r cur_c EMPTY of Inl e \<Rightarrow> Inl e
         | Inr s2 \<Rightarrow> Inr (s2((cur_r + 2 * dr, cur_c + 2 * dc) := p)))"
    using inb by (simp add: E_jump_def E_clone_def E_set_in_bounds s1_def split: sum.splits)
  show ?thesis
    unfolding j s1_def[symmetric]
    by (simp only: E_dfs_loop_h.simps(2) inb g c clone_h_def e1 e2 sum.case prod.case simp_thms
          if_False if_True)
       (simp add: e3 split: sum.splits)
qed

declare E_dfs_h.simps(2) [simp del]
declare E_dfs_loop_h.simps(2) [simp del]

lemma E_dfs_loop_h_frame:
  assumes dfs: "\<And>h a cur_r cur_c path results.
      \<exists>new. fst (E_dfs_h depth owner h a cur_r cur_c path results) = h @ new"
  shows "\<exists>new. fst (E_dfs_loop_h depth owner h a cur_r cur_c path p ds moved results) = h @ new"
proof (induction ds arbitrary: h moved results)
  case Nil
  show ?case by simp
next
  case (Cons d ds)
  obtain dr dc where d: "d = (dr, dc)" by (cases d)
  show ?case
  proof (cases "E_can_jump owner (h ! a) cur_r cur_c p dr dc")
    case False
    then show ?thesis using Cons.IH[of h moved results] by (simp add: d E_dfs_loop_h_skip)
  next
    case True
    note eq = E_dfs_loop_h_jump[OF True, of depth path ds moved results]
    show ?thesis
    proof (cases "E_jump (h ! a) cur_r cur_c dr dc p")
      case (Inl e)
      then show ?thesis by (simp add: d eq)
    next
      case (Inr new_snapshot)
      obtain h5 res where r: "E_dfs_h depth owner (h @ [new_snapshot]) (length h) (cur_r + 2 * dr) (cur_c + 2 * dc)
                      (path @ [(cur_r + 2 * dr, cur_c + 2 * dc)]) results = (h5, res)"
        by (cases "E_dfs_h depth owner (h @ [new_snapshot]) (length h) (cur_r + 2 * dr) (cur_c + 2 * dc)
                      (path @ [(cur_r + 2 * dr, cur_c + 2 * dc)]) results")
      from dfs[of "h @ [new_snapshot]" "length h" "cur_r + 2 * dr" "cur_c + 2 * dc"
          "path @ [(cur_r + 2 * dr, cur_c + 2 * dc)]" results] r
      obtain new1 where h5: "h5 = (h @ [new_snapshot]) @ new1" by auto
      show ?thesis
      proof (cases res)
        case (Inl e)
        then show ?thesis using Inr r by (simp add: d eq h5)
      next
        case res: (Inr results')
        from Cons.IH[of h5 True results'] obtain new2 where
          "fst (E_dfs_loop_h depth owner h5 a cur_r cur_c path p ds True results') = h5 @ new2" by blast
        then show ?thesis using Inr r res by (simp add: d eq h5)
      qed
    qed
  qed
qed

lemma E_dfs_h_frame: "\<exists>new. fst (E_dfs_h depth owner h a cur_r cur_c path results) = h @ new"
proof (induction depth arbitrary: h a cur_r cur_c path results)
  case 0
  show ?case by simp
next
  case (Suc depth)
  show ?case
  proof (cases "E_get_h h a cur_r cur_c")
    case (Inl e)
    then show ?thesis by (simp add: E_dfs_h.simps(2))
  next
    case (Inr p)
    obtain h' res where r: "E_dfs_loop_h depth owner h a cur_r cur_c path p directions False results = (h', res)"
      by (cases "E_dfs_loop_h depth owner h a cur_r cur_c path p directions False results")
    from E_dfs_loop_h_frame[of depth owner h a cur_r cur_c path p directions False results, OF Suc.IH] r
    obtain new where "h' = h @ new" by auto
    then show ?thesis using Inr r by (cases res) (auto simp: E_dfs_h.simps(2))
  qed
qed

lemma E_jump_less:
  assumes j: "E_can_jump owner bs cur_r cur_c p dr dc" and e: "E_jump bs cur_r cur_c dr dc p = Inr new"
    and g: "E_get bs cur_r cur_c = Inr p"
  shows "E_count new < E_count bs"
proof -
  from j have inb: "E_in_bounds (cur_r + dr) (cur_c + dc)" "E_in_bounds (cur_r + 2 * dr) (cur_c + 2 * dc)"
    and l: "bs (cur_r + 2 * dr, cur_c + 2 * dc) = EMPTY"
    and m: "piece_owner (bs (cur_r + dr, cur_c + dc)) \<noteq> None"
    by (simp_all add: E_can_jump_def)
  from e obtain s1 s2 where s: "E_set (E_clone bs) (cur_r + dr) (cur_c + dc) EMPTY = Inr s1"
    "E_set s1 cur_r cur_c EMPTY = Inr s2" "E_set s2 (cur_r + 2 * dr) (cur_c + 2 * dc) p = Inr new"
    by (auto simp: E_jump_def split: sum.splits)
  have "2 * E_count new + 1 < 2 * E_count bs + (if E_get bs cur_r cur_c = Inr p then 0 else 2)"
    using inb l m by (intro E_jump_count[OF _ _ _ _ _ s]) (simp_all add: E_get_in_bounds)
  then show ?thesis using g by simp
qed

lemma E_dfs_h_refines:
  "a < length h \<Longrightarrow> h ! a = bs \<Longrightarrow> E_count bs < depth
     \<Longrightarrow> snd (E_dfs_h depth owner h a cur_r cur_c path results) = E_dfs owner bs cur_r cur_c path results"
  "a < length h \<Longrightarrow> h ! a = bs \<Longrightarrow> E_count bs \<le> depth \<Longrightarrow> E_get bs cur_r cur_c = Inr p
     \<Longrightarrow> snd (E_dfs_loop_h depth owner h a cur_r cur_c path p ds moved results)
           = E_dfs_loop owner bs cur_r cur_c path p ds moved results"
proof (induction owner bs cur_r cur_c path results and owner bs cur_r cur_c path p ds moved results
    arbitrary: depth h a and depth h a rule: E_dfs_induct')
  case (1 owner bs cur_r cur_c path results)
  from "1.prems"(3) obtain d where d: "depth = Suc d" by (cases depth) auto
  show ?case
  proof (cases "E_get bs cur_r cur_c")
    case (Inl e)
    then show ?thesis using d "1.prems"(2) by (simp add: E_get_h_def E_dfs_h.simps(2) E_dfs.simps(1))
  next
    case (Inr p)
    have "E_count bs \<le> d" using "1.prems"(3) d by simp
    from "1.IH"[OF Inr "1.prems"(1,2) this Inr]
    have "snd (E_dfs_loop_h d owner h a cur_r cur_c path p directions False results)
        = E_dfs_loop owner bs cur_r cur_c path p directions False results" .
    then show ?thesis using d Inr "1.prems"(2)
      by (cases "E_dfs_loop_h d owner h a cur_r cur_c path p directions False results")
         (auto simp: E_get_h_def E_dfs_h.simps(2) E_dfs.simps(1) split: sum.splits)
  qed
next
  case (2 owner bs cur_r cur_c path p moved results)
  show ?case by simp
next
  case (3 owner bs cur_r cur_c path p dr dc ds moved results)
  note al = "3.prems"(1) and hb = "3.prems"(2) and cnt = "3.prems"(3) and gp = "3.prems"(4)
  show ?case
  proof (cases "E_can_jump owner bs cur_r cur_c p dr dc")
    case False
    from "3.IH"(1)[OF False al hb cnt gp] show ?thesis
      using False hb by (simp add: E_dfs_loop_h_skip E_dfs_loop_skip)
  next
    case True
    have Th: "E_can_jump owner (h ! a) cur_r cur_c p dr dc" using True hb by simp
    note eqh = E_dfs_loop_h_jump[OF Th, of depth path ds moved results]
    note eq = E_dfs_loop_jump[OF True, of path ds moved results]
    show ?thesis
    proof (cases "E_jump bs cur_r cur_c dr dc p")
      case (Inl e)
      then show ?thesis using hb by (simp add: eqh eq)
    next
      case (Inr new)
      define h4 where "h4 = h @ [new]"
      have c4: "E_count new < depth" using E_jump_less[OF True Inr gp] cnt by simp
      have h4a: "length h < length h4" "h4 ! length h = new" by (simp_all add: h4_def)
      obtain h5 res where r: "E_dfs_h depth owner h4 (length h) (cur_r + 2 * dr) (cur_c + 2 * dc)
                      (path @ [(cur_r + 2 * dr, cur_c + 2 * dc)]) results = (h5, res)"
        by (cases "E_dfs_h depth owner h4 (length h) (cur_r + 2 * dr) (cur_c + 2 * dc)
                      (path @ [(cur_r + 2 * dr, cur_c + 2 * dc)]) results")
      have res: "res = E_dfs owner new (cur_r + 2 * dr) (cur_c + 2 * dc)
                      (path @ [(cur_r + 2 * dr, cur_c + 2 * dc)]) results"
        using "3.IH"(2)[OF True Inr h4a c4] r by simp
      from E_dfs_h_frame[of depth owner h4 "length h" "cur_r + 2 * dr" "cur_c + 2 * dc"
          "path @ [(cur_r + 2 * dr, cur_c + 2 * dc)]" results] r
      obtain new1 where h5: "h5 = h4 @ new1" by auto
      have h5a: "a < length h5" "h5 ! a = bs" using al hb by (simp_all add: h5 h4_def nth_append)
      show ?thesis
      proof (cases res)
        case e: (Inl e)
        then show ?thesis using Inr r res hb by (simp add: eqh eq h4_def)
      next
        case rr: (Inr results')
        have rec: "E_dfs owner new (cur_r + 2 * dr) (cur_c + 2 * dc)
                      (path @ [(cur_r + 2 * dr, cur_c + 2 * dc)]) results = Inr results'"
          using res rr by simp
        from "3.IH"(3)[OF True Inr rec h5a cnt gp]
        show ?thesis using Inr r rr rec hb by (simp add: eqh eq h4_def)
      qed
    qed
  qed
qed

lemma find_captures_from_h_frame: "\<exists>new. fst (find_captures_from_h depth h a r c) = h @ new"
proof (cases "E_get_h h a r c")
  case (Inl e)
  then show ?thesis by (simp add: find_captures_from_h_def)
next
  case (Inr piece)
  show ?thesis
  proof (cases "piece = EMPTY")
    case True
    then show ?thesis using Inr by (simp add: find_captures_from_h_def)
  next
    case False
    from E_dfs_h_frame[of depth "piece_owner piece" "h @ [h ! a]" "length h" r c "[(r, c)]" "[]"]
    obtain new where "fst (E_dfs_h depth (piece_owner piece) (h @ [h ! a]) (length h) r c [(r, c)] [])
        = (h @ [h ! a]) @ new" by blast
    then have "fst (find_captures_from_h depth h a r c) = h @ ([h ! a] @ new)"
      using Inr False by (simp add: find_captures_from_h_def clone_h_def)
    then show ?thesis by blast
  qed
qed

lemma find_captures_from_h_refines:
  assumes "a < length h" "E_count (h ! a) < depth"
  shows "snd (find_captures_from_h depth h a r c) = find_captures_from (h ! a) r c"
proof (cases "E_get (h ! a) r c")
  case (Inl e)
  then show ?thesis by (simp add: find_captures_from_h_def find_captures_from_def E_get_h_def)
next
  case (Inr piece)
  show ?thesis
  proof (cases "piece = EMPTY")
    case True
    then show ?thesis using Inr by (simp add: find_captures_from_h_def find_captures_from_def E_get_h_def)
  next
    case False
    have "snd (E_dfs_h depth (piece_owner piece) (h @ [h ! a]) (length h) r c [(r, c)] [])
        = E_dfs (piece_owner piece) (h ! a) r c [(r, c)] []"
      using E_dfs_h_refines(1)[of "length h" "h @ [h ! a]" "h ! a" depth "piece_owner piece" r c "[(r, c)]" "[]"]
        assms(2) by simp
    then show ?thesis using Inr False
      by (simp add: find_captures_from_h_def find_captures_from_def E_get_h_def clone_h_def E_clone_def)
  qed
qed

lemma find_captures_from_returns:
  assumes "E_in_bounds r c"
  shows "\<exists>ps. find_captures_from b r c = Inr ps"
proof -
  have i: "py_index r \<noteq> None" "py_index c \<noteq> None" using py_index_in_bounds[OF assms] by auto
  from E_dfs_no_exn(1)[OF i] show ?thesis
    using assms by (auto simp: find_captures_from_def E_get_in_bounds)
qed

text \<open>
  C9. From any store and any board of it, \<open>get_valid_moves\<close> and \<open>_find_captures_from\<close>
  end with the store they started from, followed by the boards they allocated, so the
  caller's board is what it was; this holds also when the search raises. When the
  interpreter allows more nested calls than the board has pieces, they return what the
  functions on board values return, and \<open>get_valid_moves\<close> raises nothing, nor does
  \<open>_find_captures_from\<close> on a square of the board.
\<close>

theorem capture_search_frame:
  "(a < length h \<longrightarrow>
      (\<exists>new. fst (get_valid_moves_h depth h a r c) = h @ new)
      \<and> fst (get_valid_moves_h depth h a r c) ! a = h ! a
      \<and> (G_count (h ! a) < depth \<longrightarrow>
           snd (get_valid_moves_h depth h a r c) = get_valid_moves (h ! a) r c
           \<and> (\<exists>ms. get_valid_moves (h ! a) r c = Inr ms)))
   \<and> (a' < length h' \<longrightarrow>
      (\<exists>new. fst (find_captures_from_h depth' h' a' r' c') = h' @ new)
      \<and> fst (find_captures_from_h depth' h' a' r' c') ! a' = h' ! a'
      \<and> (E_count (h' ! a') < depth' \<longrightarrow>
           snd (find_captures_from_h depth' h' a' r' c') = find_captures_from (h' ! a') r' c'
           \<and> (E_in_bounds r' c' \<longrightarrow> (\<exists>ps. find_captures_from (h' ! a') r' c' = Inr ps))))"
proof (rule conjI; rule impI)
  assume a: "a < length h"
  from get_valid_moves_h_frame[of depth h a r c] obtain new where
    n: "fst (get_valid_moves_h depth h a r c) = h @ new" by blast
  then have "fst (get_valid_moves_h depth h a r c) ! a = h ! a" using a by (simp add: nth_append)
  with n show "(\<exists>new. fst (get_valid_moves_h depth h a r c) = h @ new)
      \<and> fst (get_valid_moves_h depth h a r c) ! a = h ! a
      \<and> (G_count (h ! a) < depth \<longrightarrow>
           snd (get_valid_moves_h depth h a r c) = get_valid_moves (h ! a) r c
           \<and> (\<exists>ms. get_valid_moves (h ! a) r c = Inr ms))"
    using get_valid_moves_h_refines[OF a, of depth r c] get_valid_moves_no_exn[of "h ! a" r c] by blast
next
  assume a: "a' < length h'"
  from find_captures_from_h_frame[of depth' h' a' r' c'] obtain new where
    n: "fst (find_captures_from_h depth' h' a' r' c') = h' @ new" by blast
  then have "fst (find_captures_from_h depth' h' a' r' c') ! a' = h' ! a'" using a by (simp add: nth_append)
  with n show "(\<exists>new. fst (find_captures_from_h depth' h' a' r' c') = h' @ new)
      \<and> fst (find_captures_from_h depth' h' a' r' c') ! a' = h' ! a'
      \<and> (E_count (h' ! a') < depth' \<longrightarrow>
           snd (find_captures_from_h depth' h' a' r' c') = find_captures_from (h' ! a') r' c'
           \<and> (E_in_bounds r' c' \<longrightarrow> (\<exists>ps. find_captures_from (h' ! a') r' c' = Inr ps)))"
    using find_captures_from_h_refines[OF a, of depth' r' c'] find_captures_from_returns[of r' c' "h' ! a'"]
    by blast
qed

text \<open>
  C9 on the position \<open>fork\<close> and on the ring of the engine, each the only board of its
  store, with a thousand nested calls allowed.
\<close>

theorem capture_search_frame_witness:
  "snd (get_valid_moves_h 1000 [fork] 0 2 3) = Inr [((4, 1), [(3, 2)]), ((6, 7), [(3, 4), (5, 6)])]
   \<and> fst (get_valid_moves_h 1000 [fork] 0 2 3) ! 0 = fork
   \<and> snd (find_captures_from_h 1000 [E_ring] 0 3 2)
       = Inr [[(3, 2), (5, 0), (7, 2), (5, 4), (3, 2)], [(3, 2), (5, 4), (7, 2), (5, 0), (3, 2)]]
   \<and> fst (find_captures_from_h 1000 [E_ring] 0 3 2) ! 0 = E_ring"
proof -
  have c: "G_count fork = 4" "E_count E_ring = 5" by code_simp+
  have v: "get_valid_moves fork 2 3 = Inr [((4, 1), [(3, 2)]), ((6, 7), [(3, 4), (5, 6)])]"
    by code_simp
  have f: "find_captures_from E_ring 3 2
       = Inr [[(3, 2), (5, 0), (7, 2), (5, 4), (3, 2)], [(3, 2), (5, 4), (7, 2), (5, 0), (3, 2)]]"
    by code_simp
  from capture_search_frame[of 0 "[fork]" 1000 2 3 0 "[E_ring]" 1000 3 2] c v f
  show ?thesis by simp
qed

end
